theory Spec2Isabelle
  imports Complex_Main "HOL-Library.Word"
begin

unbundle bit_operations_syntax

section \<open>Data model\<close>

text \<open>
  \<^verbatim>\<open>uint64_t\<close> and \<^verbatim>\<open>uint32_t\<close> are machine words: \<open>+\<close> and \<open>*\<close> wrap around,
  \<open>drop_bit\<close> is the logical right shift \<^verbatim>\<open>>>\<close>, \<open>push_bit\<close> the left shift.
\<close>

type_synonym u64 = "64 word"
type_synonym u32 = "32 word"

text \<open>\<^verbatim>\<open>random_t\<close> and \<^verbatim>\<open>stream_t\<close> of \<^verbatim>\<open>random_sisd.h\<close>.\<close>

record random_t =
  state :: u64
  increment :: u64

record stream_t =
  used :: u64
  filled :: u64

text \<open>
  \<^verbatim>\<open>__m256i\<close>: the four 64-bit blocks of a 256-bit vector, the lowest block first.
  The \<^verbatim>\<open>epi32\<close> instructions see each block as two 32-bit halves.
\<close>

datatype m256i = M256i (lane0: u64) (lane1: u64) (lane2: u64) (lane3: u64)

text \<open>\<^verbatim>\<open>simd_random_t\<close> of \<^verbatim>\<open>random_simd.h\<close>.\<close>

record simd_random_t =
  state :: m256i
  increment :: m256i

text \<open>\<^verbatim>\<open>struct pcg32i\<close>, the single-stream 32-bit generator of \<^verbatim>\<open>test/random_test.c\<close>.\<close>

record pcg32i =
  current :: u32
  increment :: u32

text \<open>
  An \<^verbatim>\<open>assert\<close> that fails aborts the call; a read or write outside the caller's
  buffer is undefined in C and is a result of its own here.
\<close>

datatype error = Assertion_failed | Out_of_bounds

section \<open>Compiler builtins\<close>

text \<open>
  \<^verbatim>\<open>__builtin_ctzll\<close>, \<^verbatim>\<open>__builtin_clzll\<close> and \<^verbatim>\<open>__builtin_popcountll\<close>: the number of
  zero bits below the lowest set bit, the number of zero bits above the highest set bit,
  and the number of set bits. C leaves the first two undefined at 0; here they are 64.
\<close>

definition builtin_ctzll :: "u64 \<Rightarrow> nat" where
  "builtin_ctzll x = length (takeWhile (\<lambda>i. \<not> bit x i) [0..<64])"

definition builtin_clzll :: "u64 \<Rightarrow> nat" where
  "builtin_clzll x = length (takeWhile (\<lambda>i. \<not> bit x i) (rev [0..<64]))"

definition builtin_popcountll :: "u64 \<Rightarrow> nat" where
  "builtin_popcountll x = length (filter (bit x) [0..<64])"

section \<open>Seeding\<close>

text \<open>
  \<^verbatim>\<open>rng_hash\<close> and \<^verbatim>\<open>rdrand\<close> are declared in \<^verbatim>\<open>random_utils.h\<close>; their bodies are not
  part of the sources at hand, so both are parameters of the initialisers. \<open>rdrand\<close> is
  a step of an entropy source of any type \<open>'e\<close>: \<open>None\<close> is the \<^verbatim>\<open>false\<close> return (no
  number within the retry budget), \<open>Some x\<close> is \<^verbatim>\<open>true\<close> with \<open>x\<close> stored through the
  pointer. The operator \<^verbatim>\<open>&&\<close> does not evaluate its right operand after a failure.

  \<open>mix\<close> is the hash the unit test uses in place of \<^verbatim>\<open>rng_hash\<close>
  (\<^verbatim>\<open>test/random_test.c\<close>).
\<close>

definition mix :: "u64 \<Rightarrow> u64" where
  "mix value0 =
     (let value1 = value0 XOR drop_bit 30 value0;
          value2 = value1 * 0xbf58476d1ce4e5b9;
          value3 = value2 XOR drop_bit 27 value2;
          value4 = value3 * 0x94d049bb133111eb
      in value4 XOR drop_bit 31 value4)"

definition rng_init ::
  "(u64 \<Rightarrow> u64) \<Rightarrow> ('e \<Rightarrow> u64 option \<times> 'e) \<Rightarrow> 'e \<Rightarrow> u64 \<Rightarrow> random_t \<times> 'e" where
  "rng_init rng_hash rdrand e seed =
     (if seed \<noteq> 0 then
        (\<lparr>random_t.state = rng_hash seed,
          random_t.increment = rng_hash (rng_hash seed) OR 1\<rparr>, e)
      else
        (case rdrand e of
           (None, e1) \<Rightarrow> (\<lparr>random_t.state = 0, random_t.increment = 0\<rparr>, e1)
         | (Some s, e1) \<Rightarrow>
             (case rdrand e1 of
                (None, e2) \<Rightarrow> (\<lparr>random_t.state = 0, random_t.increment = 0\<rparr>, e2)
              | (Some i, e2) \<Rightarrow>
                  (\<lparr>random_t.state = s, random_t.increment = i OR 1\<rparr>, e2))))"

text \<open>
  An entropy source for the examples: it replays a list of outcomes and fails once the
  list is used up.
\<close>

fun rdrand_replay :: "u64 option list \<Rightarrow> u64 option \<times> u64 option list" where
  "rdrand_replay [] = (None, [])"
| "rdrand_replay (x # xs) = (x, xs)"

section \<open>The scalar generator\<close>

text \<open>
  \<^verbatim>\<open>rng_next\<close> mutates the state through the pointer and returns the permuted word;
  here it returns the word together with the updated state. The pointer itself cannot
  be null here, so the \<^verbatim>\<open>rng != NULL\<close> assertions of the callers have no branch.
\<close>

definition rng_next :: "random_t \<Rightarrow> u64 \<times> random_t" where
  "rng_next rng =
     (let x = random_t.state rng;
          rng' = rng\<lparr>random_t.state :=
                   random_t.state rng * 0x5851F42D4C957F2D + random_t.increment rng\<rparr>;
          fx = (drop_bit (unat (drop_bit 59 x + 5)) x XOR x) * 0xAEF17502108EF2D9
      in (drop_bit 43 fx XOR fx, rng'))"

text \<open>The state after \<open>t\<close> calls, and the word the call number \<open>t\<close> (from 0) returns.\<close>

definition rng_skip :: "nat \<Rightarrow> random_t \<Rightarrow> random_t" where
  "rng_skip t rng = ((\<lambda>r. snd (rng_next r)) ^^ t) rng"

definition rng_word :: "nat \<Rightarrow> random_t \<Rightarrow> u64" where
  "rng_word t rng = fst (rng_next (rng_skip t rng))"

section \<open>Biased bits\<close>

text \<open>
  The \<^verbatim>\<open>for\<close> loop of \<^verbatim>\<open>rng_bias\<close>, from the program counter \<open>pc\<close> on. The \<^verbatim>\<open>switch\<close>
  has the cases 0 and 1 only.
\<close>

function rng_bias_loop :: "u64 \<Rightarrow> int \<Rightarrow> int \<Rightarrow> u64 \<Rightarrow> random_t \<Rightarrow> u64 \<times> random_t" where
  "rng_bias_loop n m pc accumulator rng =
     (if pc < m then
        (if drop_bit (nat pc) n AND 1 = 0 then
           rng_bias_loop n m (pc + 1) (accumulator AND fst (rng_next rng)) (snd (rng_next rng))
         else if drop_bit (nat pc) n AND 1 = 1 then
           rng_bias_loop n m (pc + 1) (accumulator OR fst (rng_next rng)) (snd (rng_next rng))
         else rng_bias_loop n m (pc + 1) accumulator rng)
      else (accumulator, rng))"
  by pat_completeness auto
termination
  by (relation "measure (\<lambda>(n, m, pc, accumulator, rng). nat (m - pc))") auto

declare rng_bias_loop.simps [simp del]

definition rng_bias :: "random_t \<Rightarrow> u64 \<Rightarrow> int \<Rightarrow> error + u64 \<times> random_t" where
  "rng_bias rng n m =
     (if n = 0 then Inl Assertion_failed
      else if \<not> (m > 0 \<and> m \<le> 64) then Inl Assertion_failed
      else Inr (rng_bias_loop n m (int (builtin_ctzll n)) 0 rng))"

text \<open>
  The algorithm in the words of the specification: a fold over the bit positions from
  the lowest set bit of \<open>n\<close> up to \<open>m - 1\<close>, starting from the accumulator 0, that takes a
  new generator word at every position and combines it with OR where the bit of \<open>n\<close> is
  1 and with AND where it is 0.
\<close>

definition bias_fold :: "random_t \<Rightarrow> u64 \<Rightarrow> nat \<Rightarrow> u64 \<times> random_t" where
  "bias_fold rng n m =
     fold (\<lambda>pc (acc, r). (if bit n pc then acc OR fst (rng_next r) else acc AND fst (rng_next r),
                           snd (rng_next r)))
       [builtin_ctzll n..<m] (0, rng)"

section \<open>Bit arrays\<close>

text \<open>
  Modelled from the spec: the macros of \<^verbatim>\<open>bitarray.h\<close>, which is not among the sources.
  A bit stream is a buffer of 64-bit words addressed by a global bit index: the word
  is the index divided by 64, the bit within it the index modulo 64.
  \<^verbatim>\<open>u64_bitarray_test\<close> reads one bit, \<^verbatim>\<open>u64_bitarray_set\<close> sets one bit with OR, and
  \<^verbatim>\<open>u64_bitarray_mask_at\<close> reads the bits from an index on through a mask (the 2-bit
  group at the index for the mask 3). The buffer is a list of words.
\<close>

definition u64_bitarray_test :: "u64 list \<Rightarrow> u64 \<Rightarrow> error + bool" where
  "u64_bitarray_test a i =
     (if unat i div 64 < length a then Inr (bit (a ! (unat i div 64)) (unat i mod 64))
      else Inl Out_of_bounds)"

definition u64_bitarray_mask_at :: "u64 list \<Rightarrow> u64 \<Rightarrow> u64 \<Rightarrow> error + u64" where
  "u64_bitarray_mask_at a i msk =
     (if unat i div 64 < length a then Inr (drop_bit (unat i mod 64) (a ! (unat i div 64)) AND msk)
      else Inl Out_of_bounds)"

definition u64_bitarray_set :: "u64 list \<Rightarrow> u64 \<Rightarrow> error + u64 list" where
  "u64_bitarray_set a i =
     (if unat i div 64 < length a
      then Inr (a[unat i div 64 := a ! (unat i div 64) OR push_bit (unat i mod 64) 1])
      else Inl Out_of_bounds)"

text \<open>
  \<^verbatim>\<open>memset(dest, 0, nbytes)\<close> on a buffer of 64-bit words of a little-endian machine
  (the library runs on x86 with AVX2 only): byte \<open>b\<close> of the buffer holds the bits
  \<open>8 * b\<close> to \<open>8 * b + 7\<close> of the bit stream.
\<close>

definition memset_zero :: "u64 list \<Rightarrow> nat \<Rightarrow> error + u64 list" where
  "memset_zero dest nbytes =
     (if 8 * length dest < nbytes then Inl Out_of_bounds
      else Inr (map (\<lambda>(j, w). if 8 * (j + 1) \<le> nbytes then 0
                              else if nbytes \<le> 8 * j then w
                              else w AND NOT (mask (8 * (nbytes - 8 * j))))
                  (zip [0..<length dest] dest)))"

section \<open>The Von Neumann debiaser\<close>

text \<open>
  The \<^verbatim>\<open>switch\<close> of the loop body of \<^verbatim>\<open>rng_vndb\<close>, on the value of the 2-bit group. The
  buffers are lists here, so the assertions that \<^verbatim>\<open>src\<close> and \<^verbatim>\<open>dest\<close> are not null have no
  branch, in \<^verbatim>\<open>rng_vndb\<close> and in \<^verbatim>\<open>rng_cycc\<close>.
\<close>

definition rng_vndb_switch :: "u64 \<Rightarrow> u64 list \<Rightarrow> u64 \<Rightarrow> error + u64 list \<times> u64" where
  "rng_vndb_switch g dest write_pos =
     (if g = 1 then
        (case u64_bitarray_set dest write_pos of
           Inl e \<Rightarrow> Inl e
         | Inr dest' \<Rightarrow> Inr (dest', write_pos + 1))
      else if g = 2 then Inr (dest, write_pos + 1)
      else Inr (dest, write_pos))"

text \<open>
  The \<^verbatim>\<open>while\<close> loop. Its cursors are 64-bit words, and nothing in the loop itself keeps
  \<^verbatim>\<open>read_pos += 2\<close> from wrapping around, so the loop is a partial function: \<open>None\<close> is
  a run that does not end.
\<close>

partial_function (option) rng_vndb_loop ::
  "u64 list \<Rightarrow> u64 \<Rightarrow> u64 \<Rightarrow> u64 list \<Rightarrow> u64 \<Rightarrow> u64 \<Rightarrow> (error + u64 list \<times> u64 \<times> u64) option" where
  "rng_vndb_loop src n m dest write_pos read_pos =
     (if read_pos < n then
        (case u64_bitarray_mask_at src read_pos 3 of
           Inl e \<Rightarrow> Some (Inl e)
         | Inr g \<Rightarrow>
             (case rng_vndb_switch g dest write_pos of
                Inl e \<Rightarrow> Some (Inl e)
              | Inr (dest', write_pos') \<Rightarrow>
                  if write_pos' = m then Some (Inr (dest', write_pos', read_pos + 2))
                  else rng_vndb_loop src n m dest' write_pos' (read_pos + 2)))
      else Some (Inr (dest, write_pos, read_pos)))"

declare rng_vndb_loop.simps [code]

definition rng_vndb ::
  "u64 list \<Rightarrow> u64 list \<Rightarrow> u64 \<Rightarrow> u64 \<Rightarrow> (error + u64 list \<times> stream_t) option" where
  "rng_vndb src dest n m =
     (if n = 0 then Some (Inl Assertion_failed)
      else if m = 0 then Some (Inl Assertion_failed)
      else if n mod 2 \<noteq> 0 then Some (Inl Assertion_failed)
      else
        (case memset_zero dest (unat ((m - 1) div 8 + 1)) of
           Inl e \<Rightarrow> Some (Inl e)
         | Inr dest0 \<Rightarrow>
             (case rng_vndb_loop src n m dest0 0 0 of
                None \<Rightarrow> None
              | Some (Inl e) \<Rightarrow> Some (Inl e)
              | Some (Inr (dest', write_pos, read_pos)) \<Rightarrow>
                  Some (Inr (dest', \<lparr>used = read_pos, filled = write_pos\<rparr>)))))"

text \<open>
  The debiaser in the words of the specification, on the source as a list of bits:
  consecutive groups of two bits are read; the group with value 1 (first bit set, second
  clear) emits a 1, the group with value 2 emits a 0, the other two emit nothing; the
  pass stops once \<open>m\<close> bits are out or the source is used up. The result is the list of
  emitted bits and the number of source bits read.
\<close>

fun vndb_spec :: "nat \<Rightarrow> bool list \<Rightarrow> bool list \<Rightarrow> nat \<Rightarrow> bool list \<times> nat" where
  "vndb_spec m (b0 # b1 # bs) out rd =
     (if length out = m then (out, rd)
      else vndb_spec m bs
             (if b0 \<and> \<not> b1 then out @ [True] else if \<not> b0 \<and> b1 then out @ [False] else out)
             (rd + 2))"
| "vndb_spec m bs out rd = (out, rd)"

text \<open>The bit of a buffer at a global bit index, and the first \<open>n\<close> bits of a buffer.\<close>

definition bit_at :: "u64 list \<Rightarrow> nat \<Rightarrow> bool" where
  "bit_at a i = bit (a ! (i div 64)) (i mod 64)"

definition bits_of :: "u64 list \<Rightarrow> nat \<Rightarrow> bool list" where
  "bits_of a n = map (bit_at a) [0..<n]"

section \<open>Cyclic autocorrelation\<close>

text \<open>The \<^verbatim>\<open>while\<close> loop of \<^verbatim>\<open>rng_cycc\<close>, which counts \<open>x1\<close> and \<open>x2\<close>.\<close>

function rng_cycc_loop ::
  "u64 list \<Rightarrow> u64 \<Rightarrow> u64 \<Rightarrow> u64 \<Rightarrow> u64 \<Rightarrow> u64 \<Rightarrow> error + u64 \<times> u64" where
  "rng_cycc_loop src n k i x1 x2 =
     (if i < n then
        (case u64_bitarray_test src i of
           Inl e \<Rightarrow> Inl e
         | Inr b \<Rightarrow>
             if b then
               (case u64_bitarray_test src ((i + k) mod n) of
                  Inl e \<Rightarrow> Inl e
                | Inr c \<Rightarrow>
                    if c then rng_cycc_loop src n k (i + 1) (x1 + 1) (x2 + 1)
                    else rng_cycc_loop src n k (i + 1) x1 (x2 + 1))
             else rng_cycc_loop src n k (i + 1) x1 x2)
      else Inr (x1, x2))"
  by pat_completeness auto
termination
proof (relation "measure (\<lambda>(src, n, k, i, x1, x2). unat n - unat i)")
  show "wf (measure (\<lambda>(src, n, k, i, x1, x2). unat n - unat i))"
    by simp
next
  fix src :: "u64 list" and n k i x1 x2 :: u64
  assume "i < n"
  then have less: "unat i < unat n"
    by (simp add: word_less_nat_alt)
  moreover have "unat n < 2 ^ 64"
    using unsigned_less [of n, where ?'a = nat] by simp
  ultimately have "(unat i + 1) mod 2 ^ 64 = unat i + 1"
    by simp
  then have "unat (i + 1) = unat i + 1"
    by (simp add: unat_word_ariths)
  with less have "unat n - unat (i + 1) < unat n - unat i"
    by simp
  then show "((src, n, k, i + 1, x1 + 1, x2 + 1), (src, n, k, i, x1, x2))
      \<in> measure (\<lambda>(src, n, k, i, x1, x2). unat n - unat i)"
    and "((src, n, k, i + 1, x1, x2 + 1), (src, n, k, i, x1, x2))
      \<in> measure (\<lambda>(src, n, k, i, x1, x2). unat n - unat i)"
    and "((src, n, k, i + 1, x1, x2), (src, n, k, i, x1, x2))
      \<in> measure (\<lambda>(src, n, k, i, x1, x2). unat n - unat i)"
    by simp_all
qed

declare rng_cycc_loop.simps [simp del]

text \<open>
  The \<^verbatim>\<open>double\<close> arithmetic is taken in the reals: the conversions and products are
  exact as long as they stay below \<open>2 ^ 53\<close>. A quotient with denominator 0 is a NaN or
  an infinity in IEEE 754, and every comparison with a NaN is false, so at least one of
  the two assertions on the quotient fails then.
\<close>

definition rng_cycc :: "u64 list \<Rightarrow> u64 \<Rightarrow> u64 \<Rightarrow> error + real" where
  "rng_cycc src n k =
     (if n = 0 then Inl Assertion_failed
      else if \<not> k < n then Inl Assertion_failed
      else
        (case rng_cycc_loop src n k 0 0 0 of
           Inl e \<Rightarrow> Inl e
         | Inr (x1, x2) \<Rightarrow>
             (let numerator = real (unat n) * real (unat x1) - real (unat x2) * real (unat x2);
                  denominator = real (unat n) * real (unat x2) - real (unat x2) * real (unat x2)
              in if denominator = 0 then Inl Assertion_failed
                 else if \<not> numerator / denominator \<ge> - 1 then Inl Assertion_failed
                 else if \<not> numerator / denominator \<le> 1 then Inl Assertion_failed
                 else Inr (numerator / denominator))))"

section \<open>Bounded sampling\<close>

text \<open>
  The \<^verbatim>\<open>do ... while\<close> loop of \<^verbatim>\<open>rng_rand\<close> redraws until a masked word is accepted;
  \<open>None\<close> is a run in which that never happens.
\<close>

partial_function (option) rng_rand_loop ::
  "u64 \<Rightarrow> u64 \<Rightarrow> random_t \<Rightarrow> (u64 \<times> random_t) option" where
  "rng_rand_loop bitmask scaled_max rng =
     (if fst (rng_next rng) AND bitmask > scaled_max
      then rng_rand_loop bitmask scaled_max (snd (rng_next rng))
      else Some (fst (rng_next rng) AND bitmask, snd (rng_next rng)))"

declare rng_rand_loop.simps [code]

definition rng_rand :: "random_t \<Rightarrow> u64 \<Rightarrow> u64 \<Rightarrow> (error + u64 \<times> random_t) option" where
  "rng_rand rng min0 max0 =
     (if \<not> min0 < max0 then Some (Inl Assertion_failed)
      else
        (let scaled_max = max0 - min0;
             bitmask = drop_bit (builtin_clzll scaled_max) (NOT 0)
         in if builtin_clzll bitmask \<noteq> builtin_clzll scaled_max then Some (Inl Assertion_failed)
            else if builtin_popcountll bitmask \<noteq> 64 - builtin_clzll scaled_max
              then Some (Inl Assertion_failed)
            else
              (case rng_rand_loop bitmask scaled_max rng of
                 None \<Rightarrow> None
               | Some (sample, rng') \<Rightarrow>
                   if \<not> sample \<le> scaled_max then Some (Inl Assertion_failed)
                   else Some (Inr (sample + min0, rng')))))"

section \<open>Binomial sampling\<close>

text \<open>
  The \<^verbatim>\<open>for\<close> loop of \<^verbatim>\<open>rng_bino\<close> followed by the \<^verbatim>\<open>return\<close>: \<open>k\<close> is the number of
  trials left, \<open>success\<close> the count so far.
\<close>

function rng_bino_loop ::
  "u64 \<Rightarrow> int \<Rightarrow> u64 \<Rightarrow> u64 \<Rightarrow> random_t \<Rightarrow> error + u64 \<times> random_t" where
  "rng_bino_loop n m k success rng =
     (if k > 64 then
        (case rng_bias rng n m of
           Inl e \<Rightarrow> Inl e
         | Inr (w, rng') \<Rightarrow>
             rng_bino_loop n m (k - 64) (success + of_nat (builtin_popcountll w)) rng')
      else
        (case rng_bias rng n m of
           Inl e \<Rightarrow> Inl e
         | Inr (w, rng') \<Rightarrow>
             Inr (success + of_nat (builtin_popcountll (drop_bit (unat (64 - k)) w)), rng')))"
  by pat_completeness auto
termination
proof (relation "measure (\<lambda>(n, m, k, success, rng). unat k)")
  show "wf (measure (\<lambda>(n, m, k, success, rng). unat k))"
    by simp
next
  fix n :: u64 and m :: int and k success :: u64 and rng :: random_t
  assume "64 < k"
  then have "unat (k - 64) = unat k - 64" and "64 < unat k"
    by (simp_all add: unat_sub word_less_nat_alt word_le_nat_alt)
  then show "((n, m, k - 64, success + of_nat (builtin_popcountll w), rng'), (n, m, k, success, rng))
      \<in> measure (\<lambda>(n, m, k, success, rng). unat k)" for w rng'
    by simp
qed

declare rng_bino_loop.simps [simp del]

definition rng_bino :: "random_t \<Rightarrow> u64 \<Rightarrow> u64 \<Rightarrow> int \<Rightarrow> error + u64 \<times> random_t" where
  "rng_bino rng k n m =
     (if n = 0 then Inl Assertion_failed
      else if \<not> (m > 0 \<and> m \<le> 64) then Inl Assertion_failed
      else if k = 0 then Inl Assertion_failed
      else rng_bino_loop n m k 0 rng)"

text \<open>
  The state after \<open>j\<close> calls of \<^verbatim>\<open>rng_bias\<close> with the same \<open>n\<close> and \<open>m\<close>, and the word the
  call number \<open>j\<close> (from 0) returns.
\<close>

definition bias_skip :: "u64 \<Rightarrow> int \<Rightarrow> nat \<Rightarrow> random_t \<Rightarrow> random_t" where
  "bias_skip n m j rng =
     ((\<lambda>r. snd (rng_bias_loop n m (int (builtin_ctzll n)) 0 r)) ^^ j) rng"

definition bias_word :: "u64 \<Rightarrow> int \<Rightarrow> nat \<Rightarrow> random_t \<Rightarrow> u64" where
  "bias_word n m j rng = fst (rng_bias_loop n m (int (builtin_ctzll n)) 0 (bias_skip n m j rng))"

section \<open>AVX2 intrinsics\<close>

text \<open>
  The intrinsics \<^verbatim>\<open>random_simd.c\<close> uses, after Intel's description of each, on the four
  64-bit blocks. \<open>lo32\<close> and \<open>hi32\<close> are the two 32-bit elements of a block and \<open>join32\<close>
  puts two elements back into a block.
\<close>

definition lo32 :: "u64 \<Rightarrow> u32" where
  "lo32 x = ucast x"

definition hi32 :: "u64 \<Rightarrow> u32" where
  "hi32 x = ucast (drop_bit 32 x)"

definition join32 :: "u32 \<Rightarrow> u32 \<Rightarrow> u64" where
  "join32 hi lo = push_bit 32 (ucast hi) OR ucast lo"

definition map_epi64 :: "(u64 \<Rightarrow> u64) \<Rightarrow> m256i \<Rightarrow> m256i" where
  "map_epi64 f a = M256i (f (lane0 a)) (f (lane1 a)) (f (lane2 a)) (f (lane3 a))"

definition map2_epi64 :: "(u64 \<Rightarrow> u64 \<Rightarrow> u64) \<Rightarrow> m256i \<Rightarrow> m256i \<Rightarrow> m256i" where
  "map2_epi64 f a b =
     M256i (f (lane0 a) (lane0 b)) (f (lane1 a) (lane1 b))
           (f (lane2 a) (lane2 b)) (f (lane3 a) (lane3 b))"

definition map_epi32 :: "(u32 \<Rightarrow> u32) \<Rightarrow> m256i \<Rightarrow> m256i" where
  "map_epi32 f a = map_epi64 (\<lambda>x. join32 (f (hi32 x)) (f (lo32 x))) a"

definition map2_epi32 :: "(u32 \<Rightarrow> u32 \<Rightarrow> u32) \<Rightarrow> m256i \<Rightarrow> m256i \<Rightarrow> m256i" where
  "map2_epi32 f a b =
     map2_epi64 (\<lambda>x y. join32 (f (hi32 x) (hi32 y)) (f (lo32 x) (lo32 y))) a b"

definition mm256_setzero_si256 :: m256i where
  "mm256_setzero_si256 = M256i 0 0 0 0"

definition mm256_set1_epi64x :: "u64 \<Rightarrow> m256i" where
  "mm256_set1_epi64x a = M256i a a a a"

definition mm256_set1_epi32 :: "u32 \<Rightarrow> m256i" where
  "mm256_set1_epi32 a = mm256_set1_epi64x (join32 a a)"

text \<open>\<^verbatim>\<open>_mm256_set_epi64x(e3, e2, e1, e0)\<close>: the last argument is the lowest block.\<close>

definition mm256_set_epi64x :: "u64 \<Rightarrow> u64 \<Rightarrow> u64 \<Rightarrow> u64 \<Rightarrow> m256i" where
  "mm256_set_epi64x e3 e2 e1 e0 = M256i e0 e1 e2 e3"

definition mm256_and_si256 :: "m256i \<Rightarrow> m256i \<Rightarrow> m256i" where
  "mm256_and_si256 a b = map2_epi64 (AND) a b"

definition mm256_or_si256 :: "m256i \<Rightarrow> m256i \<Rightarrow> m256i" where
  "mm256_or_si256 a b = map2_epi64 (OR) a b"

definition mm256_xor_si256 :: "m256i \<Rightarrow> m256i \<Rightarrow> m256i" where
  "mm256_xor_si256 a b = map2_epi64 (XOR) a b"

definition mm256_add_epi32 :: "m256i \<Rightarrow> m256i \<Rightarrow> m256i" where
  "mm256_add_epi32 a b = map2_epi32 (+) a b"

definition mm256_add_epi64 :: "m256i \<Rightarrow> m256i \<Rightarrow> m256i" where
  "mm256_add_epi64 a b = map2_epi64 (+) a b"

text \<open>Logical right shifts of the 32-bit elements: a count above 31 gives 0.\<close>

definition mm256_srli_epi32 :: "m256i \<Rightarrow> nat \<Rightarrow> m256i" where
  "mm256_srli_epi32 a imm8 = map_epi32 (\<lambda>x. if imm8 > 31 then 0 else drop_bit imm8 x) a"

definition mm256_srlv_epi32 :: "m256i \<Rightarrow> m256i \<Rightarrow> m256i" where
  "mm256_srlv_epi32 a count =
     map2_epi32 (\<lambda>x c. if unat c > 31 then 0 else drop_bit (unat c) x) a count"

text \<open>Left shift of the 64-bit blocks: a count above 63 gives 0.\<close>

definition mm256_slli_epi64 :: "m256i \<Rightarrow> nat \<Rightarrow> m256i" where
  "mm256_slli_epi64 a imm8 = map_epi64 (\<lambda>x. if imm8 > 63 then 0 else push_bit imm8 x) a"

text \<open>
  \<^verbatim>\<open>_mm256_mul_epu32\<close>: the unsigned 64-bit product of the low 32-bit elements of each
  block.
\<close>

definition mm256_mul_epu32 :: "m256i \<Rightarrow> m256i \<Rightarrow> m256i" where
  "mm256_mul_epu32 a b = map2_epi64 (\<lambda>x y. ucast (lo32 x) * ucast (lo32 y)) a b"

section \<open>The vector generator\<close>

text \<open>
  Four \<^verbatim>\<open>rdrand\<close> calls joined by \<^verbatim>\<open>&&\<close>, as \<^verbatim>\<open>simd_rng_init\<close> has them twice: the
  numbers for \<^verbatim>\<open>LL\<close>, \<^verbatim>\<open>LH\<close>, \<^verbatim>\<open>HL\<close> and \<^verbatim>\<open>HH\<close> in this order, stopping at the first failure.
\<close>

definition rdrand4 ::
  "('e \<Rightarrow> u64 option \<times> 'e) \<Rightarrow> 'e \<Rightarrow> (u64 \<times> u64 \<times> u64 \<times> u64) option \<times> 'e" where
  "rdrand4 rdrand e =
     (case rdrand e of
        (None, e1) \<Rightarrow> (None, e1)
      | (Some LL, e1) \<Rightarrow>
     (case rdrand e1 of
        (None, e2) \<Rightarrow> (None, e2)
      | (Some LH, e2) \<Rightarrow>
     (case rdrand e2 of
        (None, e3) \<Rightarrow> (None, e3)
      | (Some HL, e3) \<Rightarrow>
     (case rdrand e3 of
        (None, e4) \<Rightarrow> (None, e4)
      | (Some HH, e4) \<Rightarrow> (Some (LL, LH, HL, HH), e4)))))"

text \<open>The code at the label \<^verbatim>\<open>success\<close>.\<close>

definition simd_rng_init_success :: "simd_random_t \<Rightarrow> simd_random_t" where
  "simd_rng_init_success simd_rng =
     (let mask0 = mm256_set1_epi64x 0xFFFFFFFF;
          odd0 = mm256_set1_epi64x 0x1;
          r1 = simd_rng\<lparr>simd_random_t.state :=
                 mm256_and_si256 (simd_random_t.state simd_rng) mask0\<rparr>;
          r2 = r1\<lparr>simd_random_t.increment :=
                 mm256_and_si256 (simd_random_t.increment r1) mask0\<rparr>
      in r2\<lparr>simd_random_t.increment := mm256_or_si256 (simd_random_t.increment r2) odd0\<rparr>)"

text \<open>The code at the label \<^verbatim>\<open>fail\<close>.\<close>

definition simd_rng_init_fail :: simd_random_t where
  "simd_rng_init_fail =
     \<lparr>simd_random_t.state = mm256_setzero_si256,
      simd_random_t.increment = mm256_setzero_si256\<rparr>"

definition simd_rng_init ::
  "(u64 \<Rightarrow> u64) \<Rightarrow> ('e \<Rightarrow> u64 option \<times> 'e) \<Rightarrow> 'e \<Rightarrow> u64 \<Rightarrow> u64 \<Rightarrow> u64 \<Rightarrow> u64
     \<Rightarrow> simd_random_t \<times> 'e" where
  "simd_rng_init rng_hash rdrand e seed_1 seed_2 seed_3 seed_4 =
     (if seed_1 \<noteq> 0 \<and> seed_2 \<noteq> 0 \<and> seed_3 \<noteq> 0 \<and> seed_4 \<noteq> 0 then
        (let LL = rng_hash seed_4;
             LH = rng_hash seed_3;
             HL = rng_hash seed_2;
             HH = rng_hash seed_1;
             state0 = mm256_set_epi64x LL LH HL HH;
             LL' = rng_hash LL;
             LH' = rng_hash LH;
             HL' = rng_hash HL;
             HH' = rng_hash HH;
             increment0 = mm256_set_epi64x LL' LH' HL' HH'
         in (simd_rng_init_success
               \<lparr>simd_random_t.state = state0, simd_random_t.increment = increment0\<rparr>, e))
      else
        (case rdrand4 rdrand e of
           (None, e1) \<Rightarrow> (simd_rng_init_fail, e1)
         | (Some (LL, LH, HL, HH), e1) \<Rightarrow>
             (case rdrand4 rdrand e1 of
                (None, e2) \<Rightarrow> (simd_rng_init_fail, e2)
              | (Some (LL', LH', HL', HH'), e2) \<Rightarrow>
                  (simd_rng_init_success
                     \<lparr>simd_random_t.state = mm256_set_epi64x LL LH HL HH,
                      simd_random_t.increment = mm256_set_epi64x LL' LH' HL' HH'\<rparr>, e2))))"

definition simd_rng_next_partial :: "simd_random_t \<Rightarrow> m256i \<times> simd_random_t" where
  "simd_rng_next_partial rng =
     (let lcg_mult = mm256_set1_epi64x 0x2C9277B5;
          rxs_mult = mm256_set1_epi64x 0x108EF2D9;
          mod_mask = mm256_set1_epi64x 0xFFFFFFFF;
          x = simd_random_t.state rng;
          fx1 = mm256_add_epi32 (mm256_srli_epi32 x 28) (mm256_set1_epi32 4);
          fx2 = mm256_srlv_epi32 x fx1;
          fx3 = mm256_xor_si256 x fx2;
          fx4 = mm256_mul_epu32 fx3 rxs_mult;
          fx5 = mm256_and_si256 fx4 mod_mask;
          fx6 = mm256_xor_si256 (mm256_srli_epi32 fx5 22) fx5;
          s1 = mm256_mul_epu32 (simd_random_t.state rng) lcg_mult;
          s2 = mm256_and_si256 s1 mod_mask;
          s3 = mm256_add_epi64 s2 (simd_random_t.increment rng);
          s4 = mm256_and_si256 s3 mod_mask
      in (fx6, rng\<lparr>simd_random_t.state := s4\<rparr>))"

definition simd_rng_next :: "simd_random_t \<Rightarrow> m256i \<times> simd_random_t" where
  "simd_rng_next rng =
     (let (lower, rng1) = simd_rng_next_partial rng;
          (upper, rng2) = simd_rng_next_partial rng1;
          upper' = mm256_slli_epi64 upper 32;
          output = mm256_or_si256 upper' lower
      in (output, rng2))"

text \<open>The state after \<open>t\<close> calls, and the vector the call number \<open>t\<close> (from 0) returns.\<close>

definition simd_rng_skip :: "nat \<Rightarrow> simd_random_t \<Rightarrow> simd_random_t" where
  "simd_rng_skip t rng = ((\<lambda>r. snd (simd_rng_next r)) ^^ t) rng"

definition simd_rng_word :: "nat \<Rightarrow> simd_random_t \<Rightarrow> m256i" where
  "simd_rng_word t rng = fst (simd_rng_next (simd_rng_skip t rng))"

text \<open>
  The invariant of the vector state: in every block of the state and of the increment
  the upper 32 bits are zero, and every block of the increment is odd.
\<close>

definition lanes :: "m256i \<Rightarrow> u64 list" where
  "lanes a = [lane0 a, lane1 a, lane2 a, lane3 a]"

definition simd_state_ok :: "simd_random_t \<Rightarrow> bool" where
  "simd_state_ok rng \<longleftrightarrow>
     list_all (\<lambda>x. drop_bit 32 x = 0) (lanes (simd_random_t.state rng)) \<and>
     list_all (\<lambda>x. drop_bit 32 x = 0 \<and> bit x 0) (lanes (simd_random_t.increment rng))"

section \<open>The single-stream 32-bit generator of the unit test\<close>

text \<open>
  \<^verbatim>\<open>pcg32i_next\<close> of \<^verbatim>\<open>test/random_test.c\<close>, and the seeding the test gives each of its
  four streams: the state is the hash of the seed and the increment the hash of the
  hash, made odd, both cut to 32 bits.
\<close>

definition pcg32i_next :: "pcg32i \<Rightarrow> u32 \<times> pcg32i" where
  "pcg32i_next st =
     (let x = current st;
          st' = st\<lparr>current := current st * 747796405 + pcg32i.increment st\<rparr>;
          fx = (drop_bit (unat (drop_bit 28 x + 4)) x XOR x) * 277803737
      in (drop_bit 22 fx XOR fx, st'))"

definition pcg32i_seed :: "(u64 \<Rightarrow> u64) \<Rightarrow> u64 \<Rightarrow> pcg32i" where
  "pcg32i_seed rng_hash a =
     \<lparr>current = ucast (rng_hash a), pcg32i.increment = ucast (rng_hash (rng_hash a) OR 1)\<rparr>"

definition pcg32i_skip :: "nat \<Rightarrow> pcg32i \<Rightarrow> pcg32i" where
  "pcg32i_skip t st = ((\<lambda>r. snd (pcg32i_next r)) ^^ t) st"

definition pcg32i_word :: "nat \<Rightarrow> pcg32i \<Rightarrow> u32" where
  "pcg32i_word t st = fst (pcg32i_next (pcg32i_skip t st))"

text \<open>
  The vector state that holds four \<open>pcg32i\<close> streams, one in the low 32 bits of each
  block, the stream of the lowest block first.
\<close>

definition simd_of :: "pcg32i \<Rightarrow> pcg32i \<Rightarrow> pcg32i \<Rightarrow> pcg32i \<Rightarrow> simd_random_t" where
  "simd_of p0 p1 p2 p3 =
     \<lparr>simd_random_t.state =
        M256i (ucast (current p0)) (ucast (current p1)) (ucast (current p2)) (ucast (current p3)),
      simd_random_t.increment =
        M256i (ucast (pcg32i.increment p0)) (ucast (pcg32i.increment p1))
              (ucast (pcg32i.increment p2)) (ucast (pcg32i.increment p3))\<rparr>"

section \<open>The scalar generator: one step and seeding\<close>

lemma shift_amount_59: "unat (drop_bit 59 (s::u64) + 5) = unat s div 2 ^ 59 + 5"
proof -
  have "unat s < 2 ^ 64"
    using unsigned_less [of s, where ?'a = nat] by simp
  then have c: "unat s div 2 ^ 59 < 32"
    by simp
  have b: "unat (drop_bit 59 s) = unat s div 2 ^ 59"
    by (simp add: drop_bit_eq_div unat_div)
  have "unat (drop_bit 59 s + 5) = (unat (drop_bit 59 s) + 5) mod 2 ^ 64"
    by (simp only: unat_word_ariths) simp
  also have "\<dots> = unat s div 2 ^ 59 + 5"
    using c by (simp only: b) simp
  finally show ?thesis .
qed

text \<open>
  C2. One call of \<open>rng_next\<close> on the state \<open>(s, inc)\<close> returns \<open>fx XOR (fx >> 43)\<close>
  with \<open>fx = ((s >> ((s >> 59) + 5)) XOR s) * 0xAEF17502108EF2D9\<close>, computed from the
  state before the call, and leaves the state \<open>s * 0x5851F42D4C957F2D + inc\<close> modulo
  \<open>2 ^ 64\<close> with the increment as it was. The word returned is the same for every
  increment, so it is not taken from the updated state, and the function has a result,
  with no error among its results, at every state and increment.
\<close>

theorem rng_next_step:
  "rng_next \<lparr>random_t.state = s, random_t.increment = inc\<rparr> =
     (let fx = (drop_bit (unat s div 2 ^ 59 + 5) s XOR s) * 0xAEF17502108EF2D9
      in (fx XOR drop_bit 43 fx,
          \<lparr>random_t.state = s * 0x5851F42D4C957F2D + inc, random_t.increment = inc\<rparr>))
   \<and> unat (random_t.state (snd (rng_next \<lparr>random_t.state = s, random_t.increment = inc\<rparr>))) =
       (unat s * 0x5851F42D4C957F2D + unat inc) mod 2 ^ 64
   \<and> fst (rng_next \<lparr>random_t.state = s, random_t.increment = inc\<rparr>) =
       fst (rng_next \<lparr>random_t.state = s, random_t.increment = inc'\<rparr>)"
proof -
  have "unat (s * 0x5851F42D4C957F2D + inc) =
          (unat s * 0x5851F42D4C957F2D + unat inc) mod 2 ^ 64"
    by (simp add: unat_word_ariths mod_simps)
  then show ?thesis
    by (simp add: rng_next_def Let_def xor.commute shift_amount_59)
qed

text \<open>
  C3. For a seed other than 0, \<open>rng_init\<close> returns the state \<open>rng_hash seed\<close> and the
  increment \<open>rng_hash (rng_hash seed) OR 1\<close> without a draw from the entropy source. For
  the seed 0 it draws the state and then the increment: if the first draw fails, or the
  first succeeds and the second fails, the result is the all-zero state; if both
  succeed, the result is the two numbers drawn with the increment made odd.
\<close>

theorem rng_init_cases:
  "(seed \<noteq> 0 \<longrightarrow>
      rng_init rng_hash rdrand e seed =
        (\<lparr>random_t.state = rng_hash seed,
          random_t.increment = rng_hash (rng_hash seed) OR 1\<rparr>, e))
   \<and> (fst (rdrand e) = None \<longrightarrow>
        rng_init rng_hash rdrand e 0 =
          (\<lparr>random_t.state = 0, random_t.increment = 0\<rparr>, snd (rdrand e)))
   \<and> (fst (rdrand e) = Some s \<and> fst (rdrand (snd (rdrand e))) = None \<longrightarrow>
        rng_init rng_hash rdrand e 0 =
          (\<lparr>random_t.state = 0, random_t.increment = 0\<rparr>, snd (rdrand (snd (rdrand e)))))
   \<and> (fst (rdrand e) = Some s \<and> fst (rdrand (snd (rdrand e))) = Some i \<longrightarrow>
        rng_init rng_hash rdrand e 0 =
          (\<lparr>random_t.state = s, random_t.increment = i OR 1\<rparr>, snd (rdrand (snd (rdrand e))))
        \<and> odd (i OR 1))"
  by (auto simp: rng_init_def even_or_iff split: prod.splits option.splits)

theorem rng_init_cases_witness:
  "rng_init mix rdrand_replay [] 42 =
     (\<lparr>random_t.state = 12058926934050108962, random_t.increment = 10946711343035318437\<rparr>, [])
   \<and> rng_init mix rdrand_replay [None, Some 3] 0 =
       (\<lparr>random_t.state = 0, random_t.increment = 0\<rparr>, [Some 3])
   \<and> rng_init mix rdrand_replay [Some 7, None, Some 3] 0 =
       (\<lparr>random_t.state = 0, random_t.increment = 0\<rparr>, [Some 3])
   \<and> rng_init mix rdrand_replay [Some 7, Some 8] 0 =
       (\<lparr>random_t.state = 7, random_t.increment = 9\<rparr>, [])"
proof -
  have m1: "mix 42 = 12058926934050108962"
    by (simp add: mix_def Let_def)
  have m2: "mix 12058926934050108962 = 10946711343035318437"
    by (simp add: mix_def Let_def)
  have o: "(10946711343035318437 :: u64) OR 1 = 10946711343035318437" "(8::u64) OR 1 = 9"
    by simp_all
  show ?thesis
    using rng_init_cases [of 42 mix rdrand_replay "[]"]
      rng_init_cases [of 0 mix rdrand_replay "[None, Some 3]"]
      rng_init_cases [of 0 mix rdrand_replay "[Some 7, None, Some 3]" 7]
      rng_init_cases [of 0 mix rdrand_replay "[Some 7, Some 8]" 7 8]
    by (simp add: m1 m2 o)
qed

section \<open>The failure sentinel\<close>

lemma rng_init_increment_odd:
  "fst (rng_init rng_hash rdrand e seed) = \<lparr>random_t.state = 0, random_t.increment = 0\<rparr> \<or>
   odd (random_t.increment (fst (rng_init rng_hash rdrand e seed)))"
  by (auto simp: rng_init_def even_or_iff split: prod.splits option.splits)

lemma simd_success_increment:
  "lanes (simd_random_t.increment (simd_rng_init_success r)) =
     map (\<lambda>x. (x AND 0xFFFFFFFF) OR 1) (lanes (simd_random_t.increment r))"
  by (simp add: simd_rng_init_success_def Let_def lanes_def mm256_and_si256_def
      mm256_or_si256_def map2_epi64_def mm256_set1_epi64x_def)

lemma simd_success_state:
  "lanes (simd_random_t.state (simd_rng_init_success r)) =
     map (\<lambda>x. x AND 0xFFFFFFFF) (lanes (simd_random_t.state r))"
  by (simp add: simd_rng_init_success_def Let_def lanes_def mm256_and_si256_def
      mm256_or_si256_def map2_epi64_def mm256_set1_epi64x_def)

lemma simd_success_not_fail: "simd_rng_init_success r \<noteq> simd_rng_init_fail"
proof
  assume "simd_rng_init_success r = simd_rng_init_fail"
  then have "lanes (simd_random_t.increment (simd_rng_init_success r)) =
      lanes (simd_random_t.increment simd_rng_init_fail)"
    by simp
  then have "(lane0 (simd_random_t.increment r) AND 0xFFFFFFFF) OR 1 = 0"
    by (simp add: simd_success_increment)
      (simp add: lanes_def simd_rng_init_fail_def mm256_setzero_si256_def)
  then have "even ((lane0 (simd_random_t.increment r) AND 0xFFFFFFFF) OR (1::u64))"
    by simp
  then show False
    by (simp add: even_or_iff)
qed

lemma simd_rng_init_result:
  "fst (simd_rng_init rng_hash rdrand e s1 s2 s3 s4) = simd_rng_init_fail \<or>
   (\<exists>r. fst (simd_rng_init rng_hash rdrand e s1 s2 s3 s4) = simd_rng_init_success r)"
  by (auto simp: simd_rng_init_def Let_def split: prod.splits option.splits)

lemma simd_rng_init_fail_zero:
  "simd_rng_init_fail =
     \<lparr>simd_random_t.state = M256i 0 0 0 0, simd_random_t.increment = M256i 0 0 0 0\<rparr>"
  by (simp add: simd_rng_init_fail_def mm256_setzero_si256_def)

lemma less4_cases: "k < (4::nat) \<longleftrightarrow> k = 0 \<or> k = 1 \<or> k = 2 \<or> k = 3"
  by auto

lemma ex_less4: "(\<exists>k<4::nat. P k) \<longleftrightarrow> P 0 \<or> P 1 \<or> P 2 \<or> P 3"
  by (auto simp: less4_cases)

lemma funpow_unroll:
  "(f ^^ 0) x = x" "(f ^^ 1) x = f x" "(f ^^ 2) x = f (f x)" "(f ^^ 3) x = f (f (f x))"
  "(f ^^ 4) x = f (f (f (f x)))"
  by (simp_all add: eval_nat_numeral)

lemma rdrand4_alt:
  "rdrand4 rdrand e =
     (let e1 = snd (rdrand e); e2 = snd (rdrand e1); e3 = snd (rdrand e2); e4 = snd (rdrand e3)
      in if fst (rdrand e) = None then (None, e1)
         else if fst (rdrand e1) = None then (None, e2)
         else if fst (rdrand e2) = None then (None, e3)
         else if fst (rdrand e3) = None then (None, e4)
         else (Some (the (fst (rdrand e)), the (fst (rdrand e1)), the (fst (rdrand e2)),
                 the (fst (rdrand e3))), e4))"
proof (cases "rdrand e")
  case a: (Pair x0 e1)
  show ?thesis
  proof (cases "rdrand e1")
    case b: (Pair x1 e2)
    show ?thesis
    proof (cases "rdrand e2")
      case c: (Pair x2 e3)
      show ?thesis
      proof (cases "rdrand e3")
        case d: (Pair x3 e4)
        show ?thesis
          by (cases x0; cases x1; cases x2; cases x3) (simp_all add: rdrand4_def a b c d)
      qed
    qed
  qed
qed

lemma rdrand4_None_iff:
  "fst (rdrand4 rdrand e) = None \<longleftrightarrow>
     (\<exists>k<4. fst (rdrand (((\<lambda>x. snd (rdrand x)) ^^ k) e)) = None)"
  unfolding ex_less4 funpow_unroll rdrand4_alt Let_def by simp

lemma rdrand4_Some_env:
  "fst (rdrand4 rdrand e) = Some q \<Longrightarrow>
     snd (rdrand4 rdrand e) = ((\<lambda>x. snd (rdrand x)) ^^ 4) e"
  unfolding funpow_unroll rdrand4_alt Let_def by (simp split: if_splits)

lemma rdrand8_None_iff:
  "(fst (rdrand4 rdrand e) = None \<or> fst (rdrand4 rdrand (snd (rdrand4 rdrand e))) = None) \<longleftrightarrow>
     (\<exists>k<8. fst (rdrand (((\<lambda>x. snd (rdrand x)) ^^ k) e)) = None)"
  (is "?L \<longleftrightarrow> ?R")
proof (cases "fst (rdrand4 rdrand e)")
  case None
  then obtain k where "k < 4" "fst (rdrand (((\<lambda>x. snd (rdrand x)) ^^ k) e)) = None"
    using rdrand4_None_iff [of rdrand e] by auto
  then have ?R
    by (intro exI [of _ k]) simp
  then show ?thesis
    using None by simp
next
  case (Some q)
  have env: "snd (rdrand4 rdrand e) = ((\<lambda>x. snd (rdrand x)) ^^ 4) e"
    using Some by (rule rdrand4_Some_env)
  have first: "fst (rdrand (((\<lambda>x. snd (rdrand x)) ^^ k) e)) \<noteq> None" if "k < 4" for k
    using rdrand4_None_iff [of rdrand e] Some that by auto
  show ?thesis
  proof
    assume ?L
    then have "fst (rdrand4 rdrand (((\<lambda>x. snd (rdrand x)) ^^ 4) e)) = None"
      using Some env by simp
    then obtain j where j: "j < 4"
        "fst (rdrand (((\<lambda>x. snd (rdrand x)) ^^ j) (((\<lambda>x. snd (rdrand x)) ^^ 4) e))) = None"
      using rdrand4_None_iff [of rdrand "((\<lambda>x. snd (rdrand x)) ^^ 4) e"] by auto
    have "fst (rdrand (((\<lambda>x. snd (rdrand x)) ^^ (j + 4)) e)) = None"
      using j(2) by (simp only: funpow_add o_apply)
    then show ?R
      using j(1) by (intro exI [of _ "j + 4"]) simp
  next
    assume ?R
    then obtain k where k: "k < 8" "fst (rdrand (((\<lambda>x. snd (rdrand x)) ^^ k) e)) = None"
      by auto
    have "\<not> k < 4"
      using first [of k] k(2) by auto
    then have kk: "k = (k - 4) + 4" "k - 4 < 4"
      using k(1) by simp_all
    have "fst (rdrand (((\<lambda>x. snd (rdrand x)) ^^ ((k - 4) + 4)) e)) = None"
      using k(2) kk(1) by simp
    then have "fst (rdrand (((\<lambda>x. snd (rdrand x)) ^^ (k - 4)) (((\<lambda>x. snd (rdrand x)) ^^ 4) e))) = None"
      by (simp only: funpow_add o_apply)
    then have "fst (rdrand4 rdrand (((\<lambda>x. snd (rdrand x)) ^^ 4) e)) = None"
      using rdrand4_None_iff [of rdrand "((\<lambda>x. snd (rdrand x)) ^^ 4) e"] kk(2) by blast
    then show ?L
      using env by simp
  qed
qed

lemma simd_sentinel_iff_rdrand4:
  "fst (simd_rng_init rng_hash rdrand e s1 s2 s3 s4) = simd_rng_init_fail \<longleftrightarrow>
        (s1 = 0 \<or> s2 = 0 \<or> s3 = 0 \<or> s4 = 0) \<and>
        (fst (rdrand4 rdrand e) = None \<or> fst (rdrand4 rdrand (snd (rdrand4 rdrand e))) = None)"
  by (auto simp: simd_rng_init_def Let_def simd_success_not_fail split: prod.splits option.splits)

text \<open>
  C10. \<open>rng_init\<close> returns the all-zero pair exactly when the seed is 0 and one of its
  two draws fails. \<open>simd_rng_init\<close> returns the pair of all-zero vectors exactly when
  some seed is 0 and one of the eight draws fails, the draw number \<open>k\<close> being made on
  the entropy source as the \<open>k\<close> draws before it left it; the draws are those of
  \<^verbatim>\<open>rdrand\<close> itself, so a failure of any of the four numbers of either quadruple counts.
  Every other result has its increment (every 64-bit block of it, for the vector state)
  odd and so different from 0: with seeds other than 0 the result is never the sentinel,
  whatever the entropy source does.
\<close>

theorem sentinel_iff_entropy_failure:
  "(fst (rng_init rng_hash rdrand e seed) = \<lparr>random_t.state = 0, random_t.increment = 0\<rparr> \<longleftrightarrow>
      seed = 0 \<and> (fst (rdrand e) = None \<or> fst (rdrand (snd (rdrand e))) = None))
   \<and> (fst (simd_rng_init rng_hash rdrand e s1 s2 s3 s4) =
         \<lparr>simd_random_t.state = M256i 0 0 0 0, simd_random_t.increment = M256i 0 0 0 0\<rparr> \<longleftrightarrow>
        (s1 = 0 \<or> s2 = 0 \<or> s3 = 0 \<or> s4 = 0) \<and>
        (\<exists>k<8. fst (rdrand (((\<lambda>x. snd (rdrand x)) ^^ k) e)) = None))
   \<and> (fst (rng_init rng_hash rdrand e seed) \<noteq> \<lparr>random_t.state = 0, random_t.increment = 0\<rparr> \<longrightarrow>
        odd (random_t.increment (fst (rng_init rng_hash rdrand e seed))) \<and>
        random_t.increment (fst (rng_init rng_hash rdrand e seed)) \<noteq> 0)
   \<and> (fst (simd_rng_init rng_hash rdrand e s1 s2 s3 s4) \<noteq>
         \<lparr>simd_random_t.state = M256i 0 0 0 0, simd_random_t.increment = M256i 0 0 0 0\<rparr> \<longrightarrow>
        (let inc = simd_random_t.increment (fst (simd_rng_init rng_hash rdrand e s1 s2 s3 s4))
         in odd (lane0 inc) \<and> odd (lane1 inc) \<and> odd (lane2 inc) \<and> odd (lane3 inc) \<and>
            lane0 inc \<noteq> 0 \<and> lane1 inc \<noteq> 0 \<and> lane2 inc \<noteq> 0 \<and> lane3 inc \<noteq> 0))"
proof (intro conjI)
  have nz: "x OR 1 \<noteq> 0" for x :: u64
  proof
    assume "x OR 1 = 0"
    then have "even (x OR 1)" by simp
    then show False by (simp add: even_or_iff)
  qed
  show "fst (rng_init rng_hash rdrand e seed) = \<lparr>random_t.state = 0, random_t.increment = 0\<rparr> \<longleftrightarrow>
      seed = 0 \<and> (fst (rdrand e) = None \<or> fst (rdrand (snd (rdrand e))) = None)"
    by (auto simp: rng_init_def nz split: prod.splits option.splits)
  show "fst (simd_rng_init rng_hash rdrand e s1 s2 s3 s4) =
         \<lparr>simd_random_t.state = M256i 0 0 0 0, simd_random_t.increment = M256i 0 0 0 0\<rparr> \<longleftrightarrow>
        (s1 = 0 \<or> s2 = 0 \<or> s3 = 0 \<or> s4 = 0) \<and>
        (\<exists>k<8. fst (rdrand (((\<lambda>x. snd (rdrand x)) ^^ k) e)) = None)"
    using simd_sentinel_iff_rdrand4 [of rng_hash rdrand e s1 s2 s3 s4]
    by (simp only: simd_rng_init_fail_zero rdrand8_None_iff)
  show "fst (rng_init rng_hash rdrand e seed) \<noteq> \<lparr>random_t.state = 0, random_t.increment = 0\<rparr> \<longrightarrow>
        odd (random_t.increment (fst (rng_init rng_hash rdrand e seed))) \<and>
        random_t.increment (fst (rng_init rng_hash rdrand e seed)) \<noteq> 0"
    using rng_init_increment_odd [of rng_hash rdrand e seed] by auto
  show "fst (simd_rng_init rng_hash rdrand e s1 s2 s3 s4) \<noteq>
         \<lparr>simd_random_t.state = M256i 0 0 0 0, simd_random_t.increment = M256i 0 0 0 0\<rparr> \<longrightarrow>
        (let inc = simd_random_t.increment (fst (simd_rng_init rng_hash rdrand e s1 s2 s3 s4))
         in odd (lane0 inc) \<and> odd (lane1 inc) \<and> odd (lane2 inc) \<and> odd (lane3 inc) \<and>
            lane0 inc \<noteq> 0 \<and> lane1 inc \<noteq> 0 \<and> lane2 inc \<noteq> 0 \<and> lane3 inc \<noteq> 0)"
  proof
    assume "fst (simd_rng_init rng_hash rdrand e s1 s2 s3 s4) \<noteq>
         \<lparr>simd_random_t.state = M256i 0 0 0 0, simd_random_t.increment = M256i 0 0 0 0\<rparr>"
    then obtain r where r: "fst (simd_rng_init rng_hash rdrand e s1 s2 s3 s4) = simd_rng_init_success r"
      using simd_rng_init_result [of rng_hash rdrand e s1 s2 s3 s4]
      by (auto simp: simd_rng_init_fail_zero)
    have "[lane0 (simd_random_t.increment (simd_rng_init_success r)),
           lane1 (simd_random_t.increment (simd_rng_init_success r)),
           lane2 (simd_random_t.increment (simd_rng_init_success r)),
           lane3 (simd_random_t.increment (simd_rng_init_success r))] =
          map (\<lambda>x. (x AND 0xFFFFFFFF) OR 1) (lanes (simd_random_t.increment r))"
      using simd_success_increment [of r] by (simp add: lanes_def)
    then show "let inc = simd_random_t.increment (fst (simd_rng_init rng_hash rdrand e s1 s2 s3 s4))
         in odd (lane0 inc) \<and> odd (lane1 inc) \<and> odd (lane2 inc) \<and> odd (lane3 inc) \<and>
            lane0 inc \<noteq> 0 \<and> lane1 inc \<noteq> 0 \<and> lane2 inc \<noteq> 0 \<and> lane3 inc \<noteq> 0"
      by (simp add: r lanes_def even_or_iff nz Let_def)
  qed
qed


theorem sentinel_iff_entropy_failure_witness:
  "fst (rng_init mix rdrand_replay [Some 7, None] 0) = \<lparr>random_t.state = 0, random_t.increment = 0\<rparr>
   \<and> fst (rng_init mix rdrand_replay [Some 7, Some 8] 0) = \<lparr>random_t.state = 7, random_t.increment = 9\<rparr>
   \<and> fst (simd_rng_init mix rdrand_replay
        [Some 1, Some 2, Some 3, None, Some 5, Some 6, Some 7, Some 8, Some 9] 1 0 3 4) =
       \<lparr>simd_random_t.state = M256i 0 0 0 0, simd_random_t.increment = M256i 0 0 0 0\<rparr>
   \<and> fst (simd_rng_init mix rdrand_replay
        [Some 1, Some 2, Some 3, Some 4, Some 5, Some 6, Some 7, None] 1 0 3 4) =
       \<lparr>simd_random_t.state = M256i 0 0 0 0, simd_random_t.increment = M256i 0 0 0 0\<rparr>
   \<and> simd_random_t.increment (fst (simd_rng_init mix rdrand_replay
        [Some 1, Some 2, Some 3, Some 4, Some 5, Some 6, Some 0x700000008, Some 8] 1 0 3 4)) =
       M256i 9 9 7 5
   \<and> fst (simd_rng_init mix rdrand_replay [] 1 2 3 4) \<noteq>
       \<lparr>simd_random_t.state = M256i 0 0 0 0, simd_random_t.increment = M256i 0 0 0 0\<rparr>"
proof -
  have a: "fst (rng_init mix rdrand_replay [Some 7, Some 8] 0) = \<lparr>random_t.state = 7, random_t.increment = 9\<rparr>"
    by (simp add: rng_init_def)
  have b: "simd_random_t.increment (fst (simd_rng_init mix rdrand_replay
        [Some 1, Some 2, Some 3, Some 4, Some 5, Some 6, Some 0x700000008, Some 8] 1 0 3 4)) =
       M256i 9 9 7 5"
    by (simp add: simd_rng_init_def rdrand4_def simd_rng_init_success_def Let_def
        mm256_and_si256_def mm256_or_si256_def map2_epi64_def mm256_set1_epi64x_def
        mm256_set_epi64x_def)
  have "fst (rdrand_replay (((\<lambda>x. snd (rdrand_replay x)) ^^ 3)
      [Some 1, Some 2, Some 3, None, Some 5, Some 6, Some 7, Some 8, Some 9])) = None"
    by (simp add: eval_nat_numeral)
  then have c: "\<exists>k<8. fst (rdrand_replay
      (((\<lambda>x. snd (rdrand_replay x)) ^^ k)
        [Some 1, Some 2, Some 3, None, Some 5, Some 6, Some 7, Some 8, Some 9])) = None"
    by (intro exI [of _ 3]) simp
  have "fst (rdrand_replay (((\<lambda>x. snd (rdrand_replay x)) ^^ 7)
      [Some 1, Some 2, Some 3, Some 4, Some 5, Some 6, Some 7, None])) = None"
    by (simp add: eval_nat_numeral)
  then have d: "\<exists>k<8. fst (rdrand_replay (((\<lambda>x. snd (rdrand_replay x)) ^^ k)
      [Some 1, Some 2, Some 3, Some 4, Some 5, Some 6, Some 7, None])) = None"
    by (intro exI [of _ 7]) simp
  show ?thesis
    using sentinel_iff_entropy_failure [of mix rdrand_replay "[Some 7, None]" 0 1 2 3 4]
      sentinel_iff_entropy_failure [of mix rdrand_replay
        "[Some 1, Some 2, Some 3, None, Some 5, Some 6, Some 7, Some 8, Some 9]" 0 1 0 3 4]
      sentinel_iff_entropy_failure [of mix rdrand_replay
        "[Some 1, Some 2, Some 3, Some 4, Some 5, Some 6, Some 7, None]" 0 1 0 3 4]
      sentinel_iff_entropy_failure [of mix rdrand_replay "[]" 0 1 2 3 4]
      a b c d
    by simp
qed

section \<open>The vector generator against four scalar streams\<close>

lemma mask32_numeral: "(0xFFFFFFFF :: u64) = mask 32"
  by (simp add: mask_eq_exp_minus_1)

lemma lo32_ucast: "lo32 (ucast (a :: u32)) = a"
  unfolding lo32_def by (rule bit_word_eqI) (auto simp: bit_simps)

lemma hi32_ucast: "hi32 (ucast (a :: u32)) = 0"
  unfolding hi32_def by (rule bit_word_eqI) (auto simp: bit_simps dest: bit_imp_le_length)

lemma join32_zero: "join32 0 b = ucast b"
  by (simp add: join32_def)

lemma lo32_join32: "lo32 (join32 h l) = l"
  unfolding lo32_def join32_def by (rule bit_word_eqI) (auto simp: bit_simps)

lemma hi32_join32: "hi32 (join32 h l) = h"
  unfolding hi32_def join32_def by (rule bit_word_eqI) (auto simp: bit_simps dest: bit_imp_le_length)

lemma ucast_xor_32_64: "(ucast (a :: u32) :: u64) XOR ucast b = ucast (a XOR b)"
  by (rule bit_word_eqI) (auto simp: bit_simps)

lemma and_mask32_ucast: "(x :: u64) AND 0xFFFFFFFF = ucast (ucast x :: u32)"
  unfolding mask32_numeral by (rule bit_word_eqI) (auto simp: bit_simps)

lemma unat_ucast_up: "unat (ucast (a :: u32) :: u64) = unat a"
  by (simp add: unsigned_ucast_eq take_bit_eq_mod)
    (use unsigned_less [of a, where ?'a = nat] in simp)

lemma unat_ucast_down: "unat (ucast (x :: u64) :: u32) = unat x mod 2 ^ 32"
  by (simp add: unsigned_ucast_eq take_bit_eq_mod)

lemma mod_64_32: "(n :: nat) mod 18446744073709551616 mod 4294967296 = n mod 4294967296"
  by (rule mod_mod_cancel) simp

lemma ucast_mult_32: "(ucast ((ucast (a :: u32) :: u64) * ucast (b :: u32)) :: u32) = a * b"
  by (rule word_unat_eq_iff [THEN iffD2])
    (simp add: unat_ucast_down unat_ucast_up unat_word_ariths mod_64_32)

lemma ucast_add_32: "(ucast ((ucast (a :: u32) :: u64) + ucast (b :: u32)) :: u32) = a + b"
  by (rule word_unat_eq_iff [THEN iffD2])
    (simp add: unat_ucast_down unat_ucast_up unat_word_ariths mod_64_32)

lemma shift_count_28: "unat (drop_bit 28 (a :: u32) + 4) = unat a div 2 ^ 28 + 4"
proof -
  have "unat a < 2 ^ 32"
    using unsigned_less [of a, where ?'a = nat] by simp
  then have c: "unat a div 2 ^ 28 < 16"
    by simp
  have b: "unat (drop_bit 28 a) = unat a div 2 ^ 28"
    by (simp add: drop_bit_eq_div unat_div)
  have "unat (drop_bit 28 a + 4) = (unat (drop_bit 28 a) + 4) mod 2 ^ 32"
    by (simp only: unat_word_ariths) simp
  also have "\<dots> = unat a div 2 ^ 28 + 4"
    using c by (simp only: b) simp
  finally show ?thesis .
qed

lemma shift_count_le: "unat (drop_bit 28 (a :: u32) + 4) \<le> 31"
proof -
  have "unat a < 2 ^ 32"
    using unsigned_less [of a, where ?'a = nat] by simp
  then have "unat a div 2 ^ 28 < 16"
    by simp
  then show ?thesis
    by (simp only: shift_count_28)
qed

lemma rxs_mult_lane:
  "(ucast (a :: u32) :: u64) * 277803737 AND 4294967295 = ucast (a * 277803737)"
proof -
  have "(277803737 :: u64) = ucast (277803737 :: u32)"
    by simp
  then show ?thesis
    by (simp only: and_mask32_ucast ucast_mult_32)
qed

lemma lcg_mult_lane:
  "(ucast (a :: u32) :: u64) * 747796405 AND 4294967295 = ucast (a * 747796405)"
proof -
  have "(747796405 :: u64) = ucast (747796405 :: u32)"
    by simp
  then show ?thesis
    by (simp only: and_mask32_ucast ucast_mult_32)
qed

lemma add_lane:
  "(ucast (a :: u32) :: u64) + ucast (b :: u32) AND 4294967295 = ucast (a + b)"
  by (simp only: and_mask32_ucast ucast_add_32)

lemma srlv_lane:
  "(if 31 < unat (drop_bit 28 (a :: u32) + 4) then 0 else drop_bit (unat (drop_bit 28 a + 4)) a)
     = drop_bit (unat (drop_bit 28 a + 4)) a"
  using shift_count_le [of a] by simp

lemma lo32_consts: "lo32 747796405 = 747796405" "lo32 277803737 = 277803737"
  by (simp_all add: lo32_def)

lemma partial_simd_of:
  "simd_rng_next_partial (simd_of p0 p1 p2 p3) =
     (M256i (ucast (fst (pcg32i_next p0))) (ucast (fst (pcg32i_next p1)))
            (ucast (fst (pcg32i_next p2))) (ucast (fst (pcg32i_next p3))),
      simd_of (snd (pcg32i_next p0)) (snd (pcg32i_next p1))
              (snd (pcg32i_next p2)) (snd (pcg32i_next p3)))"
  by (simp add: simd_rng_next_partial_def simd_of_def pcg32i_next_def Let_def
      mm256_set1_epi64x_def mm256_set1_epi32_def mm256_add_epi32_def mm256_srli_epi32_def
      mm256_srlv_epi32_def mm256_xor_si256_def mm256_mul_epu32_def mm256_and_si256_def
      mm256_add_epi64_def map_epi32_def map2_epi32_def map_epi64_def map2_epi64_def
      lo32_ucast hi32_ucast join32_zero lo32_join32 hi32_join32 ucast_xor_32_64
      rxs_mult_lane lcg_mult_lane add_lane srlv_lane lo32_consts xor.commute)


lemma join32_eq: "push_bit 32 (ucast (h :: u32)) OR (ucast (l :: u32) :: u64) = join32 h l"
  by (simp add: join32_def)

lemma next_simd_of:
  "simd_rng_next (simd_of p0 p1 p2 p3) =
     (M256i (join32 (pcg32i_word 1 p0) (pcg32i_word 0 p0))
            (join32 (pcg32i_word 1 p1) (pcg32i_word 0 p1))
            (join32 (pcg32i_word 1 p2) (pcg32i_word 0 p2))
            (join32 (pcg32i_word 1 p3) (pcg32i_word 0 p3)),
      simd_of (pcg32i_skip 2 p0) (pcg32i_skip 2 p1) (pcg32i_skip 2 p2) (pcg32i_skip 2 p3))"
  by (simp add: simd_rng_next_def partial_simd_of pcg32i_word_def pcg32i_skip_def
      numeral_2_eq_2 mm256_slli_epi64_def mm256_or_si256_def map_epi64_def map2_epi64_def
      join32_eq)

lemma pcg32i_skip_add: "pcg32i_skip (s + t) p = pcg32i_skip s (pcg32i_skip t p)"
  by (simp add: pcg32i_skip_def funpow_add)

lemma skip_simd_of:
  "simd_rng_skip t (simd_of p0 p1 p2 p3) =
     simd_of (pcg32i_skip (2 * t) p0) (pcg32i_skip (2 * t) p1)
             (pcg32i_skip (2 * t) p2) (pcg32i_skip (2 * t) p3)"
proof (induction t)
  case 0
  show ?case
    by (simp add: simd_rng_skip_def pcg32i_skip_def)
next
  case (Suc t)
  have "simd_rng_skip (Suc t) (simd_of p0 p1 p2 p3) =
      snd (simd_rng_next (simd_rng_skip t (simd_of p0 p1 p2 p3)))"
    by (simp add: simd_rng_skip_def)
  also have "\<dots> = simd_of (pcg32i_skip 2 (pcg32i_skip (2 * t) p0))
      (pcg32i_skip 2 (pcg32i_skip (2 * t) p1)) (pcg32i_skip 2 (pcg32i_skip (2 * t) p2))
      (pcg32i_skip 2 (pcg32i_skip (2 * t) p3))"
    by (simp only: Suc.IH next_simd_of snd_conv)
  finally show ?case
    by (simp add: pcg32i_skip_add [symmetric])
qed

lemma pcg32i_word_skip: "pcg32i_word s (pcg32i_skip t p) = pcg32i_word (s + t) p"
  by (simp add: pcg32i_word_def pcg32i_skip_add)

lemma word_simd_of:
  "simd_rng_word t (simd_of p0 p1 p2 p3) =
     M256i (join32 (pcg32i_word (2 * t + 1) p0) (pcg32i_word (2 * t) p0))
           (join32 (pcg32i_word (2 * t + 1) p1) (pcg32i_word (2 * t) p1))
           (join32 (pcg32i_word (2 * t + 1) p2) (pcg32i_word (2 * t) p2))
           (join32 (pcg32i_word (2 * t + 1) p3) (pcg32i_word (2 * t) p3))"
  by (simp add: simd_rng_word_def skip_simd_of next_simd_of pcg32i_word_skip)

lemma or_1_lane: "(ucast (ucast (x :: u64) :: u32) :: u64) OR 1 = ucast (ucast (x OR 1) :: u32)"
  by (rule bit_word_eqI) (auto simp: bit_simps)

lemma simd_success_simd_of:
  "simd_rng_init_success
     \<lparr>simd_random_t.state = mm256_set_epi64x s3 s2 s1 s0,
      simd_random_t.increment = mm256_set_epi64x i3 i2 i1 i0\<rparr> =
   simd_of \<lparr>current = ucast s0, pcg32i.increment = ucast (i0 OR 1)\<rparr>
           \<lparr>current = ucast s1, pcg32i.increment = ucast (i1 OR 1)\<rparr>
           \<lparr>current = ucast s2, pcg32i.increment = ucast (i2 OR 1)\<rparr>
           \<lparr>current = ucast s3, pcg32i.increment = ucast (i3 OR 1)\<rparr>"
  by (simp add: simd_rng_init_success_def simd_of_def Let_def mm256_set_epi64x_def
      mm256_set1_epi64x_def mm256_and_si256_def mm256_or_si256_def map2_epi64_def
      or_1_lane and_mask32_ucast)

lemma simd_rng_init_seeded:
  "a \<noteq> 0 \<Longrightarrow> b \<noteq> 0 \<Longrightarrow> c \<noteq> 0 \<Longrightarrow> d \<noteq> 0 \<Longrightarrow>
   fst (simd_rng_init rng_hash rdrand e a b c d) =
     simd_of (pcg32i_seed rng_hash a) (pcg32i_seed rng_hash b)
             (pcg32i_seed rng_hash c) (pcg32i_seed rng_hash d)"
  by (simp add: simd_rng_init_def Let_def simd_success_simd_of pcg32i_seed_def)

lemma pcg32i_next_hex:
  "pcg32i_next \<lparr>current = x, pcg32i.increment = i\<rparr> =
     (let fx = (drop_bit (unat x div 2 ^ 28 + 4) x XOR x) * 0x108EF2D9
      in (fx XOR drop_bit 22 fx, \<lparr>current = x * 0x2C9277B5 + i, pcg32i.increment = i\<rparr>))"
  by (simp add: pcg32i_next_def Let_def shift_count_28 xor.commute)

text \<open>
  C1. With four seeds other than 0, the vector that call number \<open>t\<close> of \<open>simd_rng_next\<close>
  returns on the state built by \<open>simd_rng_init\<close> holds, in block \<open>j\<close>, the outputs number
  \<open>2 * t\<close> (low 32 bits) and \<open>2 * t + 1\<close> (high 32 bits) of the scalar 32-bit generator
  \<open>pcg32i\<close> seeded from seed \<open>j + 1\<close>: state the hash of the seed, increment the hash of
  the hash made odd, both cut to 32 bits. That generator multiplies its state by
  \<open>0x2C9277B5\<close> and adds the increment modulo \<open>2 ^ 32\<close>, and permutes the old state \<open>x\<close>
  by the shift \<open>4 + (x >> 28)\<close>, the multiplier \<open>0x108EF2D9\<close> and the shift 22. This holds
  for every number of calls and every hash function.
\<close>

theorem simd_matches_four_pcg32i:
  "(a \<noteq> 0 \<and> b \<noteq> 0 \<and> c \<noteq> 0 \<and> d \<noteq> 0 \<longrightarrow>
      simd_rng_word t (fst (simd_rng_init rng_hash rdrand e a b c d)) =
        M256i (join32 (pcg32i_word (2 * t + 1) (pcg32i_seed rng_hash a))
                      (pcg32i_word (2 * t) (pcg32i_seed rng_hash a)))
              (join32 (pcg32i_word (2 * t + 1) (pcg32i_seed rng_hash b))
                      (pcg32i_word (2 * t) (pcg32i_seed rng_hash b)))
              (join32 (pcg32i_word (2 * t + 1) (pcg32i_seed rng_hash c))
                      (pcg32i_word (2 * t) (pcg32i_seed rng_hash c)))
              (join32 (pcg32i_word (2 * t + 1) (pcg32i_seed rng_hash d))
                      (pcg32i_word (2 * t) (pcg32i_seed rng_hash d))))
   \<and> lo32 (join32 h l) = l \<and> hi32 (join32 h l) = h
   \<and> pcg32i_next \<lparr>current = x, pcg32i.increment = i\<rparr> =
       (let fx = (drop_bit (unat x div 2 ^ 28 + 4) x XOR x) * 0x108EF2D9
        in (fx XOR drop_bit 22 fx, \<lparr>current = x * 0x2C9277B5 + i, pcg32i.increment = i\<rparr>))"
  using pcg32i_next_hex [of x i]
  by (simp add: simd_rng_init_seeded word_simd_of lo32_join32 hi32_join32)



theorem simd_matches_four_pcg32i_witness:
  "simd_rng_word 1 (fst (simd_rng_init mix rdrand_replay [] 1 2 3 4)) =
     M256i 2453660740261345597 16709326844837266358 5246029198120557592 14208494647266704427"
proof -
  have "join32 (pcg32i_word (2 * 1 + 1) (pcg32i_seed mix 1)) (pcg32i_word (2 * 1) (pcg32i_seed mix 1))
      = 2453660740261345597"
    by code_simp
  moreover have "join32 (pcg32i_word (2 * 1 + 1) (pcg32i_seed mix 2)) (pcg32i_word (2 * 1) (pcg32i_seed mix 2))
      = 16709326844837266358"
    by code_simp
  moreover have "join32 (pcg32i_word (2 * 1 + 1) (pcg32i_seed mix 3)) (pcg32i_word (2 * 1) (pcg32i_seed mix 3))
      = 5246029198120557592"
    by code_simp
  moreover have "join32 (pcg32i_word (2 * 1 + 1) (pcg32i_seed mix 4)) (pcg32i_word (2 * 1) (pcg32i_seed mix 4))
      = 14208494647266704427"
    by code_simp
  ultimately show ?thesis
    using simd_matches_four_pcg32i [of 1 2 3 4 1 mix rdrand_replay "[]"]
    by simp
qed

section \<open>The invariant of the vector state\<close>

lemma drop_bit_32_and_mask: "drop_bit 32 ((x :: u64) AND 4294967295) = 0"
  unfolding mask32_numeral by (rule bit_word_eqI) (auto simp: bit_simps)

lemma drop_bit_32_or_1: "drop_bit 32 ((x :: u64) OR 1) = drop_bit 32 x"
  by (rule bit_word_eqI) (auto simp: bit_simps)

lemma partial_increment:
  "simd_random_t.increment (snd (simd_rng_next_partial rng)) = simd_random_t.increment rng"
  by (simp add: simd_rng_next_partial_def Let_def)

lemma partial_state:
  "simd_random_t.state (snd (simd_rng_next_partial rng)) =
     map2_epi64 (\<lambda>s i. (((ucast (lo32 s) * 0x2C9277B5) AND 0xFFFFFFFF) + i) AND 0xFFFFFFFF)
       (simd_random_t.state rng) (simd_random_t.increment rng)"
  by (simp add: simd_rng_next_partial_def Let_def mm256_mul_epu32_def mm256_and_si256_def
      mm256_add_epi64_def mm256_set1_epi64x_def map2_epi64_def lo32_def)

lemma partial_state_ok: "simd_state_ok rng \<Longrightarrow> simd_state_ok (snd (simd_rng_next_partial rng))"
  by (simp add: simd_state_ok_def partial_increment partial_state lanes_def map2_epi64_def
      drop_bit_32_and_mask)

lemma next_increment:
  "simd_random_t.increment (snd (simd_rng_next rng)) = simd_random_t.increment rng"
  by (simp add: simd_rng_next_def Let_def partial_increment split: prod.splits)
    (metis partial_increment snd_conv)

lemma next_state_ok: "simd_state_ok rng \<Longrightarrow> simd_state_ok (snd (simd_rng_next rng))"
proof -
  assume ok: "simd_state_ok rng"
  have "snd (simd_rng_next rng) = snd (simd_rng_next_partial (snd (simd_rng_next_partial rng)))"
    by (simp add: simd_rng_next_def Let_def split: prod.splits)
  with ok show ?thesis
    by (simp add: partial_state_ok)
qed

lemma skip_state_ok: "simd_state_ok rng \<Longrightarrow> simd_state_ok (simd_rng_skip t rng)"
  by (induction t) (simp_all add: simd_rng_skip_def next_state_ok)

lemma success_state_ok: "simd_state_ok (simd_rng_init_success r)"
  by (simp add: simd_state_ok_def simd_success_increment simd_success_state list_all_iff
      drop_bit_32_and_mask drop_bit_32_or_1 bit_0 even_or_iff)

text \<open>
  C9. Every result of \<open>simd_rng_init\<close> other than the all-zero sentinel has the upper 32
  bits of every block of the state and of the increment zero and every block of the
  increment odd. The partial step, \<open>simd_rng_next\<close> and any number of calls of it keep
  this, and they leave the increment vector as it is; the new state is the product of
  the low halves masked to 32 bits, plus the increment, masked to 32 bits again.
\<close>

theorem simd_state_invariant:
  "(fst (simd_rng_init rng_hash rdrand e s1 s2 s3 s4) \<noteq> simd_rng_init_fail \<longrightarrow>
      simd_state_ok (fst (simd_rng_init rng_hash rdrand e s1 s2 s3 s4)))
   \<and> (simd_state_ok rng \<longrightarrow>
        simd_state_ok (snd (simd_rng_next_partial rng)) \<and>
        simd_state_ok (snd (simd_rng_next rng)) \<and>
        simd_state_ok (simd_rng_skip t rng))
   \<and> simd_random_t.increment (snd (simd_rng_next_partial rng)) = simd_random_t.increment rng
   \<and> simd_random_t.increment (snd (simd_rng_next rng)) = simd_random_t.increment rng
   \<and> simd_random_t.state (snd (simd_rng_next_partial rng)) =
       map2_epi64 (\<lambda>s i. (((ucast (lo32 s) * 0x2C9277B5) AND 0xFFFFFFFF) + i) AND 0xFFFFFFFF)
         (simd_random_t.state rng) (simd_random_t.increment rng)"
proof -
  have "simd_state_ok (fst (simd_rng_init rng_hash rdrand e s1 s2 s3 s4))"
    if "fst (simd_rng_init rng_hash rdrand e s1 s2 s3 s4) \<noteq> simd_rng_init_fail"
    using that simd_rng_init_result [of rng_hash rdrand e s1 s2 s3 s4]
    by (auto simp: success_state_ok)
  then show ?thesis
    by (simp add: partial_state_ok next_state_ok skip_state_ok partial_increment next_increment
        partial_state)
qed



theorem simd_state_invariant_witness:
  "fst (simd_rng_init mix rdrand_replay
        [Some 0xFFFFFFFFFFFFFFFF, Some 0xFFFFFFFFFFFFFFFF, Some 0xFFFFFFFFFFFFFFFF,
         Some 0xFFFFFFFFFFFFFFFF, Some 0xFFFFFFFF00000000, Some 6, Some 0x700000008, Some 8]
        1 0 3 4) =
     \<lparr>simd_random_t.state = M256i 4294967295 4294967295 4294967295 4294967295,
      simd_random_t.increment = M256i 9 9 7 1\<rparr>
   \<and> simd_state_ok
        \<lparr>simd_random_t.state = M256i 4294967295 4294967295 4294967295 4294967295,
         simd_random_t.increment = M256i 9 9 7 1\<rparr>
   \<and> simd_state_ok (snd (simd_rng_next
        \<lparr>simd_random_t.state = M256i 4294967295 4294967295 4294967295 4294967295,
         simd_random_t.increment = M256i 9 9 7 1\<rparr>))
   \<and> snd (simd_rng_next
        \<lparr>simd_random_t.state = M256i 4294967295 4294967295 4294967295 4294967295,
         simd_random_t.increment = M256i 9 9 7 1\<rparr>) =
       \<lparr>simd_random_t.state = M256i 2528669549 2528669549 1033076737 841265597,
        simd_random_t.increment = M256i 9 9 7 1\<rparr>"
proof -
  have a: "fst (simd_rng_init mix rdrand_replay
        [Some 0xFFFFFFFFFFFFFFFF, Some 0xFFFFFFFFFFFFFFFF, Some 0xFFFFFFFFFFFFFFFF,
         Some 0xFFFFFFFFFFFFFFFF, Some 0xFFFFFFFF00000000, Some 6, Some 0x700000008, Some 8]
        1 0 3 4) =
     \<lparr>simd_random_t.state = M256i 4294967295 4294967295 4294967295 4294967295,
      simd_random_t.increment = M256i 9 9 7 1\<rparr>"
    by code_simp
  have b: "\<lparr>simd_random_t.state = M256i 4294967295 4294967295 4294967295 4294967295,
      simd_random_t.increment = M256i 9 9 7 1\<rparr> \<noteq> simd_rng_init_fail"
    by (simp add: simd_rng_init_fail_def mm256_setzero_si256_def)
  have c: "snd (simd_rng_next
        \<lparr>simd_random_t.state = M256i 4294967295 4294967295 4294967295 4294967295,
         simd_random_t.increment = M256i 9 9 7 1\<rparr>) =
       \<lparr>simd_random_t.state = M256i 2528669549 2528669549 1033076737 841265597,
        simd_random_t.increment = M256i 9 9 7 1\<rparr>"
    by code_simp
  show ?thesis
    using a b c simd_state_invariant [of mix rdrand_replay
        "[Some 0xFFFFFFFFFFFFFFFF, Some 0xFFFFFFFFFFFFFFFF, Some 0xFFFFFFFFFFFFFFFF,
         Some 0xFFFFFFFFFFFFFFFF, Some 0xFFFFFFFF00000000, Some 6, Some 0x700000008, Some 8]"
        1 0 3 4
        "\<lparr>simd_random_t.state = M256i 4294967295 4294967295 4294967295 4294967295,
         simd_random_t.increment = M256i 9 9 7 1\<rparr>" 1]
    by simp
qed

section \<open>Biased bits as a fold\<close>

lemma takeWhile_upt_props:
  assumes "k < N" and "\<not> P k"
  shows "length (takeWhile P [0..<N]) < N"
    and "\<not> P (length (takeWhile P [0..<N]))"
    and "\<forall>i < length (takeWhile P [0..<N]). P i"
proof -
  let ?t = "takeWhile P [0..<N]"
  have "k \<in> set [0..<N]"
    using assms(1) by simp
  with assms(2) have "?t \<noteq> [0..<N]"
    by (metis takeWhile_eq_all_conv)
  moreover have "?t = take (length ?t) [0..<N]"
    by (rule takeWhile_eq_take)
  ultimately have "\<not> length [0..<N] \<le> length ?t"
    by (metis take_all)
  then show lt: "length ?t < N"
    by simp
  then have "\<not> P ([0..<N] ! length ?t)"
    by (intro nth_length_takeWhile) simp
  with lt show "\<not> P (length ?t)"
    by simp
  show "\<forall>i < length ?t. P i"
  proof (intro allI impI)
    fix i assume i: "i < length ?t"
    then have "?t ! i \<in> set ?t"
      by (rule nth_mem)
    then have "P (?t ! i)"
      by (auto dest: set_takeWhileD)
    moreover have "?t ! i = [0..<N] ! i"
      using i by (rule takeWhile_nth)
    moreover have "[0..<N] ! i = i"
      using i lt by simp
    ultimately show "P i"
      by simp
  qed
qed

lemma ctzll_props:
  assumes "n \<noteq> 0"
  shows "builtin_ctzll n < 64" and "bit n (builtin_ctzll n)"
    and "\<forall>i < builtin_ctzll n. \<not> bit n i"
proof -
  from assms obtain k where k: "bit n k"
    by (auto simp: bit_eq_iff)
  then have k64: "k < 64"
    using bit_imp_le_length [of n k] by simp
  from k have nn: "\<not> \<not> bit n k"
    by simp
  note tw = takeWhile_upt_props [of k 64 "\<lambda>i. \<not> bit n i", OF k64 nn]
  show "builtin_ctzll n < 64"
    unfolding builtin_ctzll_def by (rule tw(1))
  show "bit n (builtin_ctzll n)"
    unfolding builtin_ctzll_def using tw(2) by blast
  show "\<forall>i < builtin_ctzll n. \<not> bit n i"
    unfolding builtin_ctzll_def by (rule tw(3))
qed

lemma ctzll_less_exponent:
  assumes "n \<noteq> 0" and "unat n < 2 ^ m"
  shows "builtin_ctzll n < m"
proof -
  have "bit (unat n) (builtin_ctzll n)"
    using ctzll_props(2) [OF assms(1)] by (simp add: bit_unsigned_iff)
  moreover have "take_bit m (unat n) = unat n"
    using assms(2) by (rule take_bit_nat_eq_self)
  ultimately have "bit (take_bit m (unat n)) (builtin_ctzll n)"
    by simp
  then show ?thesis
    by (simp add: bit_take_bit_iff)
qed

lemma bit_test_0: "drop_bit k (n :: u64) AND 1 = 0 \<longleftrightarrow> \<not> bit n k"
  by (simp add: and_one_eq bit_iff_odd_drop_bit even_iff_mod_2_eq_zero)

lemma bit_test_1: "drop_bit k (n :: u64) AND 1 = 1 \<longleftrightarrow> bit n k"
  by (simp add: and_one_eq bit_iff_odd_drop_bit odd_iff_mod_2_eq_one)

lemma rng_bias_loop_fold:
  "pc \<le> nat m \<Longrightarrow>
   rng_bias_loop n m (int pc) acc rng =
     fold (\<lambda>pc (acc, r). (if bit n pc then acc OR fst (rng_next r) else acc AND fst (rng_next r),
                           snd (rng_next r)))
       [pc..<nat m] (acc, rng)"
proof (induction "nat m - pc" arbitrary: pc acc rng)
  case 0
  then have "\<not> int pc < m" and "[pc..<nat m] = []"
    by auto
  then show ?case
    by (simp add: rng_bias_loop.simps [of n m "int pc"])
next
  case (Suc k)
  then have lt: "int pc < m" and up: "[pc..<nat m] = pc # [Suc pc..<nat m]"
    and k: "k = nat m - Suc pc" and le: "Suc pc \<le> nat m"
    by (auto simp: upt_conv_Cons)
  have step: "int pc + 1 = int (Suc pc)"
    by simp
  show ?case
    using lt Suc.hyps(1) [OF k le]
    by (simp add: rng_bias_loop.simps [of n m "int pc"] up bit_test_0 bit_test_1 step)
qed

lemma bias_fold_state:
  "snd (fold (\<lambda>pc (acc, r). (if bit n pc then acc OR fst (rng_next r) else acc AND fst (rng_next r),
                           snd (rng_next r))) [pc..<pc + k] (acc, rng)) = rng_skip k rng"
proof (induction k arbitrary: acc)
  case 0
  show ?case by (simp add: rng_skip_def)
next
  case (Suc k)
  then show ?case
    by (simp add: rng_skip_def case_prod_unfold)
qed

text \<open>
  C4. For \<open>0 < n < 2 ^ m\<close> and \<open>0 < m \<le> 64\<close>, \<open>rng_bias\<close> returns what the fold returns
  that starts from the accumulator 0 and, for each bit position from the lowest set bit
  of \<open>n\<close> (which is \<open>builtin_ctzll n\<close>) up to \<open>m - 1\<close>, takes the next generator word and
  combines it with OR where the bit of \<open>n\<close> is 1 and with AND where it is 0. The
  generator is advanced exactly \<open>m - builtin_ctzll n\<close> times, which is at least once.
\<close>

theorem rng_bias_is_fold:
  "n \<noteq> 0 \<and> unat n < 2 ^ nat m \<and> 0 < m \<and> m \<le> 64 \<longrightarrow>
     rng_bias rng n m = Inr (bias_fold rng n (nat m))
     \<and> snd (bias_fold rng n (nat m)) = rng_skip (nat m - builtin_ctzll n) rng
     \<and> builtin_ctzll n < nat m
     \<and> bit n (builtin_ctzll n) \<and> (\<forall>i < builtin_ctzll n. \<not> bit n i)"
proof (intro impI)
  assume a: "n \<noteq> 0 \<and> unat n < 2 ^ nat m \<and> 0 < m \<and> m \<le> 64"
  then have lt: "builtin_ctzll n < nat m"
    by (simp add: ctzll_less_exponent)
  then have "rng_bias_loop n m (int (builtin_ctzll n)) 0 rng = bias_fold rng n (nat m)"
    by (simp add: rng_bias_loop_fold bias_fold_def)
  with a have 1: "rng_bias rng n m = Inr (bias_fold rng n (nat m))"
    by (simp add: rng_bias_def)
  have "[builtin_ctzll n..<nat m] = [builtin_ctzll n..<builtin_ctzll n + (nat m - builtin_ctzll n)]"
    using lt by simp
  then have 2: "snd (bias_fold rng n (nat m)) = rng_skip (nat m - builtin_ctzll n) rng"
    unfolding bias_fold_def by (simp only: bias_fold_state)
  from a 1 2 lt show "rng_bias rng n m = Inr (bias_fold rng n (nat m))
     \<and> snd (bias_fold rng n (nat m)) = rng_skip (nat m - builtin_ctzll n) rng
     \<and> builtin_ctzll n < nat m
     \<and> bit n (builtin_ctzll n) \<and> (\<forall>i < builtin_ctzll n. \<not> bit n i)"
    using ctzll_props(2,3) [of n] by simp
qed


theorem rng_bias_is_fold_witness:
  "rng_bias \<lparr>random_t.state = 12058926934050108962, random_t.increment = 10946711343035318437\<rparr> 32 8 =
     Inr (18016666523009281,
          \<lparr>random_t.state = 1813882502086159965, random_t.increment = 10946711343035318437\<rparr>)
   \<and> builtin_ctzll 32 = 5
   \<and> rng_skip 3 \<lparr>random_t.state = 12058926934050108962, random_t.increment = 10946711343035318437\<rparr> =
       \<lparr>random_t.state = 1813882502086159965, random_t.increment = 10946711343035318437\<rparr>"
proof -
  have f: "bias_fold \<lparr>random_t.state = 12058926934050108962, random_t.increment = 10946711343035318437\<rparr>
      32 8 =
     (18016666523009281,
      \<lparr>random_t.state = 1813882502086159965, random_t.increment = 10946711343035318437\<rparr>)"
    by code_simp
  have c: "builtin_ctzll 32 = 5"
    by code_simp
  have h: "(32 :: u64) \<noteq> 0 \<and> unat (32 :: u64) < 2 ^ nat 8 \<and> (0 :: int) < 8 \<and> (8 :: int) \<le> 64"
    by simp
  show ?thesis
    using rng_bias_is_fold [of 32 8
        "\<lparr>random_t.state = 12058926934050108962, random_t.increment = 10946711343035318437\<rparr>"] h
    by (simp add: f c)
qed

section \<open>The binomial count\<close>

lemma length_filter_upt_le:
  assumes "\<And>i. P i \<Longrightarrow> i < M" and "M \<le> N"
  shows "length (filter P [0..<N]) \<le> M"
proof -
  have "[0..<N] = [0..<M] @ [M..<N]"
    using assms(2) by (metis le_add_diff_inverse upt_add_eq_append zero_le)
  moreover have "filter P [M..<N] = []"
    using assms(1) by (fastforce simp: filter_empty_conv)
  ultimately have "length (filter P [0..<N]) = length (filter P [0..<M])"
    by simp
  also have "\<dots> \<le> length [0..<M]"
    by (rule length_filter_le)
  finally show ?thesis
    by simp
qed

lemma popcountll_drop_bit_le: "s \<le> 64 \<Longrightarrow> builtin_popcountll (drop_bit s w) \<le> 64 - s"
  unfolding builtin_popcountll_def
proof (rule length_filter_upt_le)
  fix i assume "bit (drop_bit s w) i"
  then have "bit w (s + i)"
    by (simp add: bit_drop_bit_eq)
  then have "s + i < 64"
    using bit_imp_le_length [of w "s + i"] by simp
  then show "i < 64 - s"
    by simp
qed simp

lemma popcountll_le: "builtin_popcountll w \<le> 64"
  using popcountll_drop_bit_le [of 0 w] by simp

lemma rng_bias_valid:
  "n \<noteq> 0 \<Longrightarrow> 0 < m \<Longrightarrow> m \<le> 64 \<Longrightarrow>
   rng_bias (bias_skip n m j rng) n m = Inr (bias_word n m j rng, bias_skip n m (Suc j) rng)"
  by (simp add: rng_bias_def bias_word_def bias_skip_def)

lemma bias_skip_Suc: "bias_skip n m j (bias_skip n m 1 rng) = bias_skip n m (Suc j) rng"
proof -
  have "(f ^^ j) (f x) = f ((f ^^ j) x)" for f :: "random_t \<Rightarrow> random_t" and x
    by (simp add: funpow_swap1)
  then show ?thesis
    by (simp add: bias_skip_def)
qed

lemma bias_word_Suc: "bias_word n m j (bias_skip n m 1 rng) = bias_word n m (Suc j) rng"
  by (simp only: bias_word_def bias_skip_Suc)

lemma rng_bino_loop_chunks:
  assumes "n \<noteq> 0" and "0 < m" and "m \<le> 64"
  shows "(unat k - 1) div 64 = q \<Longrightarrow> k \<noteq> 0 \<Longrightarrow>
    rng_bino_loop n m k success rng =
      Inr (success
           + of_nat (\<Sum>j<q. builtin_popcountll (bias_word n m j rng))
           + of_nat (builtin_popcountll
               (drop_bit (64 - (unat k - 64 * q)) (bias_word n m q rng))),
           bias_skip n m (Suc q) rng)"
proof (induction q arbitrary: k success rng)
  case 0
  then have "unat k \<noteq> 0"
    by (simp add: unat_eq_0)
  with 0 have le: "unat k \<le> 64"
    by simp
  then have "\<not> 64 < k"
    by (simp add: word_less_nat_alt)
  moreover have "unat (64 - k) = 64 - unat k"
    using le by (simp add: unat_sub word_le_nat_alt)
  moreover have "rng_bias rng n m = Inr (bias_word n m 0 rng, bias_skip n m (Suc 0) rng)"
    using rng_bias_valid [OF assms, of 0 rng] by (simp add: bias_skip_def)
  ultimately show ?case
    by (simp add: rng_bino_loop.simps [of n m k])
next
  case (Suc q)
  then have gt: "64 < unat k"
    by simp
  then have k64: "64 < k"
    by (simp add: word_less_nat_alt)
  have sub: "unat (k - 64) = unat k - 64"
    using gt by (simp add: unat_sub word_le_nat_alt)
  have q': "(unat (k - 64) - 1) div 64 = q"
    using Suc.prems(1) gt by (simp add: sub)
  have nz: "k - 64 \<noteq> 0"
    using gt sub by (metis unat_0 zero_less_diff less_numeral_extra(3))
  have b: "rng_bias rng n m = Inr (bias_word n m 0 rng, bias_skip n m 1 rng)"
    using rng_bias_valid [OF assms, of 0 rng] by (simp add: bias_skip_def)
  have r: "unat (k - 64) - 64 * q = unat k - 64 * Suc q"
    by (simp add: sub)
  have e: "(\<Sum>j<Suc q. builtin_popcountll (bias_word n m j rng)) =
      builtin_popcountll (bias_word n m 0 rng)
      + (\<Sum>j<q. builtin_popcountll (bias_word n m (Suc j) rng))"
    by (rule sum.lessThan_Suc_shift)
  have "rng_bino_loop n m k success rng =
      rng_bino_loop n m (k - 64) (success + of_nat (builtin_popcountll (bias_word n m 0 rng)))
        (bias_skip n m 1 rng)"
    using k64 b by (simp add: rng_bino_loop.simps [of n m k])
  also have "\<dots> = Inr (success + of_nat (builtin_popcountll (bias_word n m 0 rng))
           + of_nat (\<Sum>j<q. builtin_popcountll (bias_word n m (Suc j) rng))
           + of_nat (builtin_popcountll
               (drop_bit (64 - (unat k - 64 * Suc q)) (bias_word n m (Suc q) rng))),
           bias_skip n m (Suc (Suc q)) rng)"
    by (simp only: Suc.IH [OF q' nz] bias_word_Suc bias_skip_Suc r)
  finally show ?case
    by (simp only: e of_nat_add add.assoc)
qed


lemma shifted_word_bits:
  fixes w :: u64
  assumes "r \<le> 64"
  shows "bit (drop_bit (64 - r) w) i \<longleftrightarrow> i < r \<and> bit w (64 - r + i)"
proof -
  have "i < r" if "bit w (64 - r + i)"
    using bit_imp_le_length [OF that] assms by simp
  then show ?thesis
    by (auto simp: bit_drop_bit_eq)
qed

lemma chunk_arith:
  fixes K :: nat
  assumes "0 < K"
  shows "K mod 64 = 0 \<Longrightarrow> K div 64 = Suc ((K - 1) div 64) \<and> K - 64 * ((K - 1) div 64) = 64"
    and "K mod 64 \<noteq> 0 \<Longrightarrow> K div 64 = (K - 1) div 64 \<and> K - 64 * ((K - 1) div 64) = K mod 64"
    and "K - 64 * ((K - 1) div 64) \<le> 64"
    and "64 * ((K - 1) div 64) + (K - 64 * ((K - 1) div 64)) = K"
proof -
  obtain a b where K: "K = 64 * a + b" and b: "b < 64"
    by (metis mod_less_divisor mult_div_mod_eq zero_less_numeral)
  show "K mod 64 = 0 \<Longrightarrow> K div 64 = Suc ((K - 1) div 64) \<and> K - 64 * ((K - 1) div 64) = 64"
  proof -
    assume "K mod 64 = 0"
    with K b have b0: "b = 0" by simp
    with assms K obtain a' where a: "a = Suc a'"
      by (cases a) auto
    have "K - 1 = 64 * a' + 63"
      using K b0 a by simp
    then have "(K - 1) div 64 = a'"
      by simp
    moreover have "K div 64 = a"
      using K b0 by simp
    ultimately show ?thesis
      using K b0 a by simp
  qed
  show "K mod 64 \<noteq> 0 \<Longrightarrow> K div 64 = (K - 1) div 64 \<and> K - 64 * ((K - 1) div 64) = K mod 64"
  proof -
    assume "K mod 64 \<noteq> 0"
    with K b have b0: "b \<noteq> 0" by simp
    then have "K - 1 = 64 * a + (b - 1)" and "b - 1 < 64"
      using K b by simp_all
    then have "(K - 1) div 64 = a"
      by simp
    moreover have "K div 64 = a" "K mod 64 = b"
      using K b by simp_all
    ultimately show ?thesis
      using K by simp
  qed
  then show "K - 64 * ((K - 1) div 64) \<le> 64"
    using \<open>K mod 64 = 0 \<Longrightarrow> K div 64 = Suc ((K - 1) div 64) \<and> K - 64 * ((K - 1) div 64) = 64\<close>
    by (cases "K mod 64 = 0") (simp_all add: less_imp_le)
  have "64 * ((K - 1) div 64) \<le> K - 1"
    by simp
  then show "64 * ((K - 1) div 64) + (K - 64 * ((K - 1) div 64)) = K"
    using assms by simp
qed

text \<open>
  C7. For \<open>k \<ge> 1\<close>, \<open>n \<noteq> 0\<close> and \<open>0 < m \<le> 64\<close>, \<open>rng_bino\<close> returns the sum of the
  population counts of one whole \<open>rng_bias\<close> word for every chunk of 64 trials and of
  the last word shifted right by 64 minus the number of trials that remain. The loop
  runs while more than 64 trials remain, so the last word stands for 1 to 64 trials (a
  last chunk of 64 is counted whole, with the shift 0); the count is the same as with
  \<open>k div 64\<close> whole words and a last word shifted by \<open>64 - k mod 64\<close>. After the shift by
  \<open>64 - r\<close> only the \<open>r\<close> low-order bits of the shifted word can be set (they are the \<open>r\<close>
  high-order bits of the biased word). The sum does not wrap around and never exceeds
  \<open>k\<close>.
\<close>

theorem rng_bino_counts:
  "n \<noteq> 0 \<and> 0 < m \<and> m \<le> 64 \<and> k \<noteq> 0 \<longrightarrow>
     (\<exists>res. rng_bino rng k n m = Inr (res, bias_skip n m (Suc ((unat k - 1) div 64)) rng)
        \<and> unat res =
            (\<Sum>j<(unat k - 1) div 64. builtin_popcountll (bias_word n m j rng))
            + builtin_popcountll
                (drop_bit (64 - (unat k - 64 * ((unat k - 1) div 64)))
                   (bias_word n m ((unat k - 1) div 64) rng))
        \<and> unat res =
            (\<Sum>j<unat k div 64. builtin_popcountll (bias_word n m j rng))
            + builtin_popcountll
                (drop_bit (64 - unat k mod 64) (bias_word n m (unat k div 64) rng))
        \<and> unat res \<le> unat k)
     \<and> (\<forall>j. rng_bias (bias_skip n m j rng) n m =
            Inr (bias_word n m j rng, bias_skip n m (Suc j) rng))
     \<and> (\<forall>w r i. r \<le> 64 \<longrightarrow>
            (bit (drop_bit (64 - r) (w :: u64)) i \<longleftrightarrow> i < r \<and> bit w (64 - r + i)))"
proof (intro impI)
  assume a: "n \<noteq> 0 \<and> 0 < m \<and> m \<le> 64 \<and> k \<noteq> 0"
  define K where "K = unat k"
  define q where "q = (K - 1) div 64"
  define r where "r = K - 64 * q"
  define S where "S = (\<Sum>j<q. builtin_popcountll (bias_word n m j rng))"
  define L where "L = builtin_popcountll (drop_bit (64 - r) (bias_word n m q rng))"
  have K: "0 < K"
    using a by (simp add: K_def unat_gt_0)
  have r64: "r \<le> 64" and split: "64 * q + r = K"
    using chunk_arith(3,4) [OF K] by (simp_all add: r_def q_def)
  have "S \<le> (\<Sum>j<q. 64)"
    unfolding S_def by (rule sum_mono) (rule popcountll_le)
  then have S: "S \<le> 64 * q"
    by simp
  have "L \<le> 64 - (64 - r)"
    unfolding L_def by (rule popcountll_drop_bit_le) simp
  then have L: "L \<le> r"
    using r64 by simp
  from S L split have le: "S + L \<le> K"
    by simp
  have "K < 2 ^ 64"
    unfolding K_def using unsigned_less [of k, where ?'a = nat] by simp
  with le have "(S + L) mod 2 ^ 64 = S + L"
    by simp
  then have un: "unat (word_of_nat (S + L) :: u64) = S + L"
    by (subst unat_of_nat) simp
  have "rng_bino_loop n m k 0 rng =
      Inr (0 + word_of_nat S + word_of_nat L, bias_skip n m (Suc q) rng)"
    unfolding S_def L_def r_def K_def
    by (rule rng_bino_loop_chunks) (use a in \<open>simp_all add: q_def K_def\<close>)
  then have run: "rng_bino rng k n m = Inr (word_of_nat (S + L), bias_skip n m (Suc q) rng)"
    using a by (simp add: rng_bino_def)
  have lit: "S + L = (\<Sum>j<K div 64. builtin_popcountll (bias_word n m j rng))
            + builtin_popcountll (drop_bit (64 - K mod 64) (bias_word n m (K div 64) rng))"
  proof (cases "K mod 64 = 0")
    case True
    then have d: "K div 64 = Suc q" and r: "r = 64"
      using chunk_arith(1) [OF K] by (simp_all add: q_def r_def)
    have "builtin_popcountll (drop_bit 64 (bias_word n m (Suc q) rng)) \<le> 64 - 64"
      by (rule popcountll_drop_bit_le) simp
    then show ?thesis
      by (simp add: True d S_def L_def r)
  next
    case False
    then have d: "K div 64 = q" and r: "r = K mod 64"
      using chunk_arith(2) [OF K] by (simp_all add: q_def r_def)
    show ?thesis
      by (simp add: d S_def L_def r [symmetric])
  qed
  have bias: "\<forall>j. rng_bias (bias_skip n m j rng) n m =
            Inr (bias_word n m j rng, bias_skip n m (Suc j) rng)"
    using a by (simp add: rng_bias_valid)
  show "(\<exists>res. rng_bino rng k n m = Inr (res, bias_skip n m (Suc ((unat k - 1) div 64)) rng)
        \<and> unat res =
            (\<Sum>j<(unat k - 1) div 64. builtin_popcountll (bias_word n m j rng))
            + builtin_popcountll
                (drop_bit (64 - (unat k - 64 * ((unat k - 1) div 64)))
                   (bias_word n m ((unat k - 1) div 64) rng))
        \<and> unat res =
            (\<Sum>j<unat k div 64. builtin_popcountll (bias_word n m j rng))
            + builtin_popcountll
                (drop_bit (64 - unat k mod 64) (bias_word n m (unat k div 64) rng))
        \<and> unat res \<le> unat k)
     \<and> (\<forall>j. rng_bias (bias_skip n m j rng) n m =
            Inr (bias_word n m j rng, bias_skip n m (Suc j) rng))
     \<and> (\<forall>w r i. r \<le> 64 \<longrightarrow>
            (bit (drop_bit (64 - r) (w :: u64)) i \<longleftrightarrow> i < r \<and> bit w (64 - r + i)))"
  proof (intro conjI exI [of _ "word_of_nat (S + L)"])
    show "rng_bino rng k n m =
        Inr (word_of_nat (S + L), bias_skip n m (Suc ((unat k - 1) div 64)) rng)"
      using run unfolding q_def K_def .
    show "unat (word_of_nat (S + L) :: u64) =
        (\<Sum>j<(unat k - 1) div 64. builtin_popcountll (bias_word n m j rng))
            + builtin_popcountll
                (drop_bit (64 - (unat k - 64 * ((unat k - 1) div 64)))
                   (bias_word n m ((unat k - 1) div 64) rng))"
      unfolding un unfolding S_def L_def r_def q_def K_def ..
    show "unat (word_of_nat (S + L) :: u64) =
        (\<Sum>j<unat k div 64. builtin_popcountll (bias_word n m j rng))
            + builtin_popcountll
                (drop_bit (64 - unat k mod 64) (bias_word n m (unat k div 64) rng))"
      unfolding un using lit unfolding K_def .
    show "unat (word_of_nat (S + L) :: u64) \<le> unat k"
      unfolding un using le unfolding K_def .
    show "\<forall>j. rng_bias (bias_skip n m j rng) n m =
            Inr (bias_word n m j rng, bias_skip n m (Suc j) rng)"
      by (rule bias)
    show "\<forall>w r i. r \<le> 64 \<longrightarrow>
            (bit (drop_bit (64 - r) (w :: u64)) i \<longleftrightarrow> i < r \<and> bit w (64 - r + i))"
      by (simp add: shifted_word_bits)
  qed
qed


theorem rng_bino_counts_witness:
  "rng_bino \<lparr>random_t.state = 12058926934050108962, random_t.increment = 10946711343035318437\<rparr> 70 5 3 =
     Inr (41, \<lparr>random_t.state = 7867458045054760660, random_t.increment = 10946711343035318437\<rparr>)
   \<and> unat (41 :: u64) \<le> unat (70 :: u64)"
proof -
  have ev: "rng_bino \<lparr>random_t.state = 12058926934050108962, random_t.increment = 10946711343035318437\<rparr>
      70 5 3 =
     Inr (41, \<lparr>random_t.state = 7867458045054760660, random_t.increment = 10946711343035318437\<rparr>)"
    by code_simp
  have "(5 :: u64) \<noteq> 0 \<and> (0 :: int) < 3 \<and> (3 :: int) \<le> 64 \<and> (70 :: u64) \<noteq> 0"
    by simp
  with rng_bino_counts [of 5 3 70
      "\<lparr>random_t.state = 12058926934050108962, random_t.increment = 10946711343035318437\<rparr>"]
  obtain res where
    "rng_bino \<lparr>random_t.state = 12058926934050108962, random_t.increment = 10946711343035318437\<rparr>
      70 5 3 =
       Inr (res, bias_skip 5 3 (Suc ((unat (70 :: u64) - 1) div 64))
         \<lparr>random_t.state = 12058926934050108962, random_t.increment = 10946711343035318437\<rparr>)"
    and "unat res \<le> unat (70 :: u64)"
    by blast
  with ev show ?thesis
    by simp
qed

section \<open>Bounded sampling by rejection\<close>

lemma takeWhile_stop:
  assumes "j < length xs" and "\<not> P (xs ! j)" and "\<forall>i<j. P (xs ! i)"
  shows "length (takeWhile P xs) = j"
proof -
  have "takeWhile P xs = take j xs"
    using assms by (intro takeWhile_eq_take_P_nth) simp_all
  then show ?thesis
    using assms(1) by simp
qed

lemma clz_general:
  assumes "h < N" and "\<not> P h" and "\<forall>i. h < i \<and> i < N \<longrightarrow> P i"
  shows "length (takeWhile P (rev [0..<N])) = N - Suc h"
proof (rule takeWhile_stop)
  show "N - Suc h < length (rev [0..<N])"
    using assms(1) by simp
  have "rev [0..<N] ! (N - Suc h) = h"
    using assms(1) by (simp add: rev_nth)
  then show "\<not> P (rev [0..<N] ! (N - Suc h))"
    using assms(2) by simp
  show "\<forall>i<N - Suc h. P (rev [0..<N] ! i)"
  proof (intro allI impI)
    fix i assume i: "i < N - Suc h"
    then have "rev [0..<N] ! i = N - Suc i"
      by (simp add: rev_nth)
    moreover have "h < N - Suc i" and "N - Suc i < N"
      using i by simp_all
    ultimately show "P (rev [0..<N] ! i)"
      using assms(3) by simp
  qed
qed

lemma clzll_eq:
  assumes "bit x h" and "\<forall>i. h < i \<longrightarrow> \<not> bit x i"
  shows "builtin_clzll x = 63 - h"
proof -
  have "h < 64"
    using bit_imp_le_length [OF assms(1)] by simp
  then have "length (takeWhile (\<lambda>i. \<not> bit x i) (rev [0..<64])) = 64 - Suc h"
    using assms by (intro clz_general) simp_all
  then have "builtin_clzll x = 64 - Suc h"
    by (simp only: builtin_clzll_def)
  then show ?thesis
    by simp
qed

lemma highest_bit:
  fixes x :: u64
  assumes "x \<noteq> 0"
  shows "\<exists>h. bit x h \<and> (\<forall>i. h < i \<longrightarrow> \<not> bit x i)"
proof -
  let ?B = "{i. bit x i}"
  have sub: "?B \<subseteq> {..<64}"
    using bit_imp_le_length [of x] by auto
  then have fin: "finite ?B"
    by (rule finite_subset) simp
  from assms have ne: "?B \<noteq> {}"
    by (auto simp: bit_eq_iff)
  have "Max ?B \<in> ?B"
    using fin ne by (rule Max_in)
  moreover have "\<forall>i. Max ?B < i \<longrightarrow> \<not> bit x i"
    using fin by (auto simp: Max_less_iff [OF fin ne] dest: Max_ge [OF fin] leD)
  ultimately show ?thesis
    by blast
qed

lemma clzll_props:
  fixes x :: u64
  assumes "x \<noteq> 0"
  shows "builtin_clzll x < 64" and "bit x (63 - builtin_clzll x)"
    and "\<forall>i. 63 - builtin_clzll x < i \<longrightarrow> \<not> bit x i"
proof -
  from highest_bit [OF assms] obtain h where h: "bit x h" "\<forall>i. h < i \<longrightarrow> \<not> bit x i"
    by blast
  then have c: "builtin_clzll x = 63 - h" and "h < 64"
    using bit_imp_le_length [of x h] by (simp_all add: clzll_eq)
  then have "63 - builtin_clzll x = h"
    by simp
  with h c show "builtin_clzll x < 64" and "bit x (63 - builtin_clzll x)"
    and "\<forall>i. 63 - builtin_clzll x < i \<longrightarrow> \<not> bit x i"
    by simp_all
qed

lemma bitmask_eq_mask: "c \<le> 64 \<Longrightarrow> drop_bit c (NOT 0 :: u64) = mask (64 - c)"
  by (rule bit_word_eqI) (auto simp: bit_simps)

lemma clzll_mask: "c < 64 \<Longrightarrow> builtin_clzll (mask (64 - c)) = c"
proof -
  assume c: "c < 64"
  have "builtin_clzll (mask (64 - c)) = 63 - (63 - c)"
    by (rule clzll_eq) (use c in \<open>auto simp: bit_simps\<close>)
  with c show ?thesis
    by simp
qed

lemma length_filter_less_upt: "L \<le> N \<Longrightarrow> length (filter (\<lambda>i. i < L) [0..<N]) = L"
proof -
  assume "L \<le> N"
  then have "[0..<N] = [0..<L] @ [L..<N]"
    by (metis le_add_diff_inverse upt_add_eq_append zero_le)
  moreover have "filter (\<lambda>i. i < L) [L..<N] = []"
    by (auto simp: filter_empty_conv)
  moreover have "filter (\<lambda>i. i < L) [0..<L] = [0..<L]"
    by (auto simp: filter_id_conv)
  ultimately show ?thesis
    by simp
qed

lemma popcountll_mask: "L \<le> 64 \<Longrightarrow> builtin_popcountll (mask L) = L"
proof -
  assume L: "L \<le> 64"
  have "bit (mask L :: u64) = (\<lambda>i. i < L)"
    using L by (auto simp: bit_simps fun_eq_iff)
  then show ?thesis
    unfolding builtin_popcountll_def using L by (simp only: length_filter_less_upt)
qed

lemma span_le_mask:
  fixes x :: u64
  assumes "x \<noteq> 0"
  shows "x \<le> mask (64 - builtin_clzll x)"
proof -
  have "x AND mask (64 - builtin_clzll x) = x"
  proof (rule bit_word_eqI)
    fix i assume "i < LENGTH(64)"
    show "bit (x AND mask (64 - builtin_clzll x)) i \<longleftrightarrow> bit x i"
      using clzll_props(1,3) [OF assms]
      by (cases "63 - builtin_clzll x < i") (auto simp: bit_simps)
  qed
  then show ?thesis
    by (metis word_and_le1)
qed

lemma bit_nat_ge: "bit (n :: nat) h \<Longrightarrow> 2 ^ h \<le> n"
proof (rule ccontr)
  assume "bit n h" and "\<not> 2 ^ h \<le> n"
  then have "n div 2 ^ h = 0"
    by simp
  with \<open>bit n h\<close> show False
    by (simp add: bit_iff_odd)
qed

lemma unat_mask_less: "unat (mask L :: u64) < 2 ^ L"
proof -
  have "take_bit L (mask L :: u64) = mask L"
    by (rule bit_word_eqI) (auto simp: bit_simps)
  then have "unat (mask L :: u64) = take_bit L (unat (mask L :: u64))"
    by (metis unsigned_take_bit_eq)
  also have "\<dots> < 2 ^ L"
    by (rule take_bit_nat_less_exp)
  finally show ?thesis .
qed

lemma mask_less_double:
  fixes x :: u64
  assumes "x \<noteq> 0"
  shows "unat (mask (64 - builtin_clzll x) :: u64) < 2 * unat x"
proof -
  let ?c = "builtin_clzll x"
  have c: "?c < 64" and b: "bit x (63 - ?c)"
    using clzll_props [OF assms] by simp_all
  from b have "bit (unat x) (63 - ?c)"
    by (simp add: bit_unsigned_iff)
  then have "2 ^ (63 - ?c) \<le> unat x"
    by (rule bit_nat_ge)
  moreover have "unat (mask (64 - ?c) :: u64) < 2 ^ (64 - ?c)"
    by (rule unat_mask_less)
  moreover have "64 - ?c = Suc (63 - ?c)"
    using c by simp
  then have "(2 :: nat) ^ (64 - ?c) = 2 * 2 ^ (63 - ?c)"
    by (simp only: power_Suc)
  ultimately show ?thesis
    by simp
qed


lemma rng_skip_next: "rng_skip t (snd (rng_next rng)) = rng_skip (Suc t) rng"
proof -
  have "(f ^^ t) (f x) = f ((f ^^ t) x)" for f :: "random_t \<Rightarrow> random_t" and x
    by (simp add: funpow_swap1)
  then show ?thesis
    by (simp add: rng_skip_def)
qed

lemma rng_word_next: "rng_word t (snd (rng_next rng)) = rng_word (Suc t) rng"
  by (simp only: rng_word_def rng_skip_next)

lemma rng_word_0: "rng_word 0 rng = fst (rng_next rng)" and rng_skip_1: "rng_skip (Suc 0) rng = snd (rng_next rng)"
  by (simp_all add: rng_word_def rng_skip_def)

lemma rng_rand_loop_returns:
  assumes "rng_rand_loop bitmask scaled_max rng = Some y"
  shows "\<exists>t. (\<forall>j<t. scaled_max < rng_word j rng AND bitmask) \<and>
       \<not> scaled_max < rng_word t rng AND bitmask \<and>
       y = (rng_word t rng AND bitmask, rng_skip (Suc t) rng)"
proof -
  let ?P = "\<lambda>bm sp r y. \<exists>t. (\<forall>j<t. sp < rng_word j r AND bm) \<and>
       \<not> sp < rng_word t r AND bm \<and> y = (rng_word t r AND bm, rng_skip (Suc t) r)"
  have "?P bitmask scaled_max rng y"
  proof (rule rng_rand_loop.raw_induct [where P = ?P, OF _ assms])
    fix loop :: "u64 \<Rightarrow> u64 \<Rightarrow> random_t \<Rightarrow> (u64 \<times> random_t) option"
      and bm sp :: u64 and r :: random_t and y' :: "u64 \<times> random_t"
    assume IH: "\<And>bm sp r y. loop bm sp r = Some y \<Longrightarrow> ?P bm sp r y"
      and body: "(if sp < fst (rng_next r) AND bm then loop bm sp (snd (rng_next r))
          else Some (fst (rng_next r) AND bm, snd (rng_next r))) = Some y'"
    show "?P bm sp r y'"
    proof (cases "sp < fst (rng_next r) AND bm")
      case True
      with body have "loop bm sp (snd (rng_next r)) = Some y'"
        by simp
      from IH [OF this] obtain t where
        tt: "(\<forall>j<t. sp < rng_word j (snd (rng_next r)) AND bm) \<and>
          \<not> sp < rng_word t (snd (rng_next r)) AND bm \<and>
          y' = (rng_word t (snd (rng_next r)) AND bm, rng_skip (Suc t) (snd (rng_next r)))" ..
      note t = tt [THEN conjunct1] tt [THEN conjunct2, THEN conjunct1]
        tt [THEN conjunct2, THEN conjunct2]
      have "\<forall>j<Suc t. sp < rng_word j r AND bm"
      proof (intro allI impI)
        fix j assume "j < Suc t"
        then show "sp < rng_word j r AND bm"
          using True t(1) by (cases j) (simp_all add: rng_word_0 rng_word_next)
      qed
      with t(2,3) show ?thesis
        by (intro exI [of _ "Suc t"]) (simp add: rng_word_next rng_skip_next)
    next
      case False
      with body have "y' = (fst (rng_next r) AND bm, snd (rng_next r))"
        by simp
      with False show ?thesis
        by (intro exI [of _ 0]) (simp add: rng_word_0 rng_skip_1)
    qed
  qed
  then show ?thesis .
qed

lemma rng_rand_loop_accepts:
  "(\<forall>j<t. scaled_max < rng_word j rng AND bitmask) \<Longrightarrow>
   \<not> scaled_max < rng_word t rng AND bitmask \<Longrightarrow>
   rng_rand_loop bitmask scaled_max rng = Some (rng_word t rng AND bitmask, rng_skip (Suc t) rng)"
proof (induction t arbitrary: rng)
  case 0
  then show ?case
    by (subst rng_rand_loop.simps) (simp add: rng_word_0 rng_skip_1)
next
  case (Suc t)
  have first: "scaled_max < fst (rng_next rng) AND bitmask"
    using Suc.prems(1) by (auto simp: rng_word_0 [symmetric])
  have "\<forall>j<t. scaled_max < rng_word j (snd (rng_next rng)) AND bitmask"
    using Suc.prems(1) by (simp add: rng_word_next)
  moreover have "\<not> scaled_max < rng_word t (snd (rng_next rng)) AND bitmask"
    using Suc.prems(2) by (simp add: rng_word_next)
  ultimately have "rng_rand_loop bitmask scaled_max (snd (rng_next rng)) =
      Some (rng_word t (snd (rng_next rng)) AND bitmask, rng_skip (Suc t) (snd (rng_next rng)))"
    by (rule Suc.IH)
  with first show ?case
    by (subst rng_rand_loop.simps) (simp add: rng_word_next rng_skip_next)
qed

lemma shifted_sample_bounds:
  fixes min0 max0 sample :: u64
  assumes "min0 < max0" and "sample \<le> max0 - min0"
  shows "min0 \<le> sample + min0" and "sample + min0 \<le> max0"
proof -
  have lt: "unat min0 < unat max0"
    using assms(1) by (simp add: word_less_nat_alt)
  then have "unat (max0 - min0) = unat max0 - unat min0"
    by (simp add: unat_sub word_le_nat_alt)
  with assms(2) have s: "unat sample + unat min0 \<le> unat max0"
    using lt by (simp add: word_le_nat_alt)
  moreover have "unat max0 < 2 ^ 64"
    using unsigned_less [of max0, where ?'a = nat] by simp
  ultimately have "(unat sample + unat min0) mod 2 ^ 64 = unat sample + unat min0"
    by simp
  then have u: "unat (sample + min0) = unat sample + unat min0"
    by (simp add: unat_word_ariths)
  show "min0 \<le> sample + min0"
    by (simp add: word_le_nat_alt u)
  show "sample + min0 \<le> max0"
    using s by (simp add: word_le_nat_alt u)
qed


lemma rng_rand_unfold:
  assumes "min0 < max0"
  shows "rng_rand rng min0 max0 =
     (case rng_rand_loop (drop_bit (builtin_clzll (max0 - min0)) (NOT 0)) (max0 - min0) rng of
        None \<Rightarrow> None
      | Some (sample, rng') \<Rightarrow>
          if \<not> sample \<le> max0 - min0 then Some (Inl Assertion_failed)
          else Some (Inr (sample + min0, rng')))"
proof -
  have "max0 - min0 \<noteq> 0"
    using assms by simp
  then have c: "builtin_clzll (max0 - min0) < 64"
    by (rule clzll_props(1))
  then have m: "drop_bit (builtin_clzll (max0 - min0)) (NOT 0 :: u64) =
      mask (64 - builtin_clzll (max0 - min0))"
    by (simp add: bitmask_eq_mask)
  show ?thesis
    using assms c by (simp add: rng_rand_def Let_def m clzll_mask popcountll_mask)
qed

text \<open>
  C8. For \<open>min < max\<close>, \<open>rng_rand\<close> works with \<open>span = max - min\<close> and the bitmask of all
  ones shifted right by the number of leading zero bits of the span. The bitmask is
  \<open>2 ^ b - 1\<close> for the bit length \<open>b\<close> of the span: the span fits under it and it is below
  twice the span. No assertion of the function fails. A masked draw is accepted exactly
  when it is at most the span: if the function returns, it returns the first accepted
  masked draw plus \<open>min\<close>, a value between \<open>min\<close> and \<open>max\<close> inclusive, and the state after
  that draw; and if some draw is accepted, the function returns.
\<close>

theorem rng_rand_in_range:
  "min0 < max0 \<longrightarrow>
     (let span = max0 - min0;
          bitmask = drop_bit (builtin_clzll span) (NOT 0)
      in bitmask = mask (64 - builtin_clzll span)
         \<and> span \<le> bitmask \<and> unat bitmask < 2 * unat span
         \<and> (\<forall>e. rng_rand rng min0 max0 \<noteq> Some (Inl e))
         \<and> (\<forall>v rng'. rng_rand rng min0 max0 = Some (Inr (v, rng')) \<longrightarrow>
               min0 \<le> v \<and> v \<le> max0 \<and>
               (\<exists>t. (\<forall>j<t. \<not> rng_word j rng AND bitmask \<le> span) \<and>
                    rng_word t rng AND bitmask \<le> span \<and>
                    v = (rng_word t rng AND bitmask) + min0 \<and>
                    rng' = rng_skip (Suc t) rng))
         \<and> (\<forall>t. (\<forall>j<t. \<not> rng_word j rng AND bitmask \<le> span) \<and>
                  rng_word t rng AND bitmask \<le> span \<longrightarrow>
                rng_rand rng min0 max0 =
                  Some (Inr ((rng_word t rng AND bitmask) + min0, rng_skip (Suc t) rng))))"
proof (intro impI)
  assume lt: "min0 < max0"
  define span where "span = max0 - min0"
  define bitmask :: u64 where "bitmask = drop_bit (builtin_clzll span) (NOT 0)"
  have nz: "span \<noteq> 0"
    using lt by (simp add: span_def)
  have c: "builtin_clzll span < 64"
    using nz by (rule clzll_props(1))
  have m: "bitmask = mask (64 - builtin_clzll span)"
    using c by (simp add: bitmask_def bitmask_eq_mask)
  have le: "span \<le> bitmask"
    unfolding m using nz by (rule span_le_mask)
  have dbl: "unat bitmask < 2 * unat span"
    unfolding m using nz by (rule mask_less_double)
  have unf: "rng_rand rng min0 max0 =
     (case rng_rand_loop bitmask span rng of
        None \<Rightarrow> None
      | Some (sample, rng') \<Rightarrow>
          if \<not> sample \<le> span then Some (Inl Assertion_failed)
          else Some (Inr (sample + min0, rng')))"
    unfolding bitmask_def span_def using lt by (rule rng_rand_unfold)
  have ret: "\<exists>t. (\<forall>j<t. \<not> rng_word j rng AND bitmask \<le> span) \<and>
        rng_word t rng AND bitmask \<le> span \<and>
        y = (rng_word t rng AND bitmask, rng_skip (Suc t) rng)"
    if "rng_rand_loop bitmask span rng = Some y" for y
    using rng_rand_loop_returns [OF that] by (simp add: not_le not_less)
  have noerr: "\<forall>e. rng_rand rng min0 max0 \<noteq> Some (Inl e)"
  proof (cases "rng_rand_loop bitmask span rng")
    case None
    then show ?thesis
      by (simp add: unf)
  next
    case (Some y)
    from ret [OF Some] show ?thesis
      by (auto simp: unf Some)
  qed
  have good: "min0 \<le> v \<and> v \<le> max0 \<and>
               (\<exists>t. (\<forall>j<t. \<not> rng_word j rng AND bitmask \<le> span) \<and>
                    rng_word t rng AND bitmask \<le> span \<and>
                    v = (rng_word t rng AND bitmask) + min0 \<and>
                    rng' = rng_skip (Suc t) rng)"
    if r: "rng_rand rng min0 max0 = Some (Inr (v, rng'))" for v rng'
  proof (cases "rng_rand_loop bitmask span rng")
    case None
    with r show ?thesis
      by (simp add: unf)
  next
    case (Some y)
    from ret [OF Some] obtain t where
      tt: "(\<forall>j<t. \<not> rng_word j rng AND bitmask \<le> span) \<and>
        rng_word t rng AND bitmask \<le> span \<and>
        y = (rng_word t rng AND bitmask, rng_skip (Suc t) rng)" ..
    then have acc: "rng_word t rng AND bitmask \<le> max0 - min0"
      by (simp add: span_def)
    from r tt have v: "v = (rng_word t rng AND bitmask) + min0" and r': "rng' = rng_skip (Suc t) rng"
      by (simp_all add: unf Some)
    have "min0 \<le> v" and "v \<le> max0"
      unfolding v using shifted_sample_bounds [OF lt acc] by simp_all
    with tt v r' show ?thesis
      by blast
  qed
  have conv: "rng_rand rng min0 max0 =
        Some (Inr ((rng_word t rng AND bitmask) + min0, rng_skip (Suc t) rng))"
    if "(\<forall>j<t. \<not> rng_word j rng AND bitmask \<le> span) \<and> rng_word t rng AND bitmask \<le> span"
    for t
  proof -
    from that have "\<forall>j<t. span < rng_word j rng AND bitmask"
      and a: "\<not> span < rng_word t rng AND bitmask"
      by (simp_all add: not_le not_less)
    then have "rng_rand_loop bitmask span rng =
        Some (rng_word t rng AND bitmask, rng_skip (Suc t) rng)"
      by (rule rng_rand_loop_accepts)
    with a show ?thesis
      by (simp add: unf not_less)
  qed
  show "let span = max0 - min0;
          bitmask = drop_bit (builtin_clzll span) (NOT 0)
      in bitmask = mask (64 - builtin_clzll span)
         \<and> span \<le> bitmask \<and> unat bitmask < 2 * unat span
         \<and> (\<forall>e. rng_rand rng min0 max0 \<noteq> Some (Inl e))
         \<and> (\<forall>v rng'. rng_rand rng min0 max0 = Some (Inr (v, rng')) \<longrightarrow>
               min0 \<le> v \<and> v \<le> max0 \<and>
               (\<exists>t. (\<forall>j<t. \<not> rng_word j rng AND bitmask \<le> span) \<and>
                    rng_word t rng AND bitmask \<le> span \<and>
                    v = (rng_word t rng AND bitmask) + min0 \<and>
                    rng' = rng_skip (Suc t) rng))
         \<and> (\<forall>t. (\<forall>j<t. \<not> rng_word j rng AND bitmask \<le> span) \<and>
                  rng_word t rng AND bitmask \<le> span \<longrightarrow>
                rng_rand rng min0 max0 =
                  Some (Inr ((rng_word t rng AND bitmask) + min0, rng_skip (Suc t) rng)))"
    unfolding Let_def span_def [symmetric] bitmask_def [symmetric]
    using m le dbl noerr good conv by blast
qed

theorem rng_rand_in_range_witness:
  "rng_rand \<lparr>random_t.state = 12058926934050108962, random_t.increment = 10946711343035318437\<rparr> 10 12 =
     Some (Inr (11, \<lparr>random_t.state = 3963761747095156632, random_t.increment = 10946711343035318437\<rparr>))
   \<and> (10 :: u64) \<le> 11 \<and> (11 :: u64) \<le> 12
   \<and> drop_bit (builtin_clzll (12 - 10)) (NOT 0 :: u64) = 3"
proof -
  have ev: "rng_rand \<lparr>random_t.state = 12058926934050108962, random_t.increment = 10946711343035318437\<rparr>
      10 12 =
     Some (Inr (11, \<lparr>random_t.state = 3963761747095156632, random_t.increment = 10946711343035318437\<rparr>))"
    by code_simp
  have c: "builtin_clzll (12 - 10) = 62"
    by code_simp
  have "(10 :: u64) < 12"
    by simp
  with rng_rand_in_range [of 10 12
      "\<lparr>random_t.state = 12058926934050108962, random_t.increment = 10946711343035318437\<rparr>"]
  have "drop_bit (builtin_clzll (12 - 10)) (NOT 0 :: u64) = mask (64 - builtin_clzll (12 - 10))"
    and "\<forall>v rng'. rng_rand \<lparr>random_t.state = 12058926934050108962, random_t.increment = 10946711343035318437\<rparr>
      10 12 = Some (Inr (v, rng')) \<longrightarrow> 10 \<le> v \<and> v \<le> 12"
    by (simp_all add: Let_def)
  with ev c show ?thesis
    by (simp add: mask_eq_exp_minus_1)
qed

section \<open>The debiaser against its specification\<close>

lemma memset_zero_bits:
  assumes "nbytes \<le> 8 * length dest"
  shows "\<exists>d0. memset_zero dest nbytes = Inr d0 \<and> length d0 = length dest \<and>
           (\<forall>i < 64 * length dest. bit_at d0 i \<longleftrightarrow> \<not> i < 8 * nbytes \<and> bit_at dest i)"
proof -
  define f :: "nat \<times> u64 \<Rightarrow> u64" where
    "f = (\<lambda>(j, w). if 8 * (j + 1) \<le> nbytes then 0
                    else if nbytes \<le> 8 * j then w
                    else w AND NOT (mask (8 * (nbytes - 8 * j))))"
  define d0 where "d0 = map f (zip [0..<length dest] dest)"
  have eq: "memset_zero dest nbytes = Inr d0"
    using assms by (simp add: memset_zero_def d0_def f_def)
  have len: "length d0 = length dest"
    by (simp add: d0_def)
  have bits: "bit_at d0 i \<longleftrightarrow> \<not> i < 8 * nbytes \<and> bit_at dest i" if i: "i < 64 * length dest" for i
  proof -
    define J where "J = i div 64"
    define b where "b = i mod 64"
    have J: "J < length dest" and b: "b < 64" and ij: "i = 64 * J + b"
      using i by (simp_all add: J_def b_def less_mult_imp_div_less mult.commute)
    have nth: "d0 ! J = f (J, dest ! J)"
      using J by (simp add: d0_def)
    have at: "bit_at d0 i = bit (f (J, dest ! J)) b" "bit_at dest i = bit (dest ! J) b"
      unfolding bit_at_def J_def [symmetric] b_def [symmetric] by (simp_all only: nth)
    consider "8 * (J + 1) \<le> nbytes" | "nbytes \<le> 8 * J" | "8 * J < nbytes" "nbytes < 8 * (J + 1)"
      by linarith
    then show ?thesis
    proof cases
      case 1
      then have "i < 8 * nbytes"
        using ij b by simp
      moreover have "f (J, dest ! J) = 0"
        using 1 by (simp add: f_def)
      ultimately show ?thesis
        by (simp add: at)
    next
      case 2
      then have "\<not> i < 8 * nbytes"
        using ij by simp
      moreover have "f (J, dest ! J) = dest ! J"
        using 2 by (simp add: f_def)
      ultimately show ?thesis
        by (simp add: at)
    next
      case 3
      then have "i < 8 * nbytes \<longleftrightarrow> b < 8 * (nbytes - 8 * J)"
        using ij by auto
      moreover have "f (J, dest ! J) = dest ! J AND NOT (mask (8 * (nbytes - 8 * J)))"
        using 3 by (simp add: f_def)
      ultimately show ?thesis
        using b by (simp add: at bit_and_iff bit_not_iff Word.bit_mask_iff) auto
    qed
  qed
  from eq len bits show ?thesis
    by blast
qed

lemma pair_index:
  assumes "even p"
  shows "Suc p div 64 = p div 64" and "Suc p mod 64 = Suc (p mod 64)" and "p mod 64 \<le> 62"
proof -
  from assms obtain q where p: "p = 2 * q"
    by (auto elim: evenE)
  have "2 * (q mod 32) = 2 * q mod (2 * 32)"
    by (rule mult_mod_right)
  then have "p mod 64 = 2 * (q mod 32)"
    by (simp add: p)
  moreover have "q mod 32 < 32"
    by simp
  ultimately show le: "p mod 64 \<le> 62"
    by linarith
  then have lt: "Suc (p mod 64) \<noteq> 64"
    by simp
  then show m: "Suc p mod 64 = Suc (p mod 64)"
    by (simp add: mod_Suc)
  then show "Suc p div 64 = p div 64"
    by (simp add: div_Suc)
qed

lemma group_bits:
  fixes w :: u64
  shows "bit (drop_bit s w AND 3) i \<longleftrightarrow> i < 2 \<and> bit w (s + i)"
proof -
  have 3: "(3 :: u64) = mask 2"
    by (simp add: mask_eq_exp_minus_1)
  show ?thesis
    unfolding 3 by (simp only: bit_and_iff bit_drop_bit_eq Word.bit_mask_iff comp_def) auto
qed

lemma group_is_1:
  fixes w :: u64
  shows "drop_bit s w AND 3 = 1 \<longleftrightarrow> bit w s \<and> \<not> bit w (Suc s)"
proof
  assume "drop_bit s w AND 3 = 1"
  then have b: "bit (drop_bit s w AND 3) i \<longleftrightarrow> i = 0" for i
    by (simp only: bit_1_iff)
  from b [of 0] b [of 1] show "bit w s \<and> \<not> bit w (Suc s)"
    by (simp only: group_bits) simp
next
  assume a: "bit w s \<and> \<not> bit w (Suc s)"
  show "drop_bit s w AND 3 = 1"
  proof (rule bit_eqI)
    fix i :: nat
    have "i = 0 \<or> i = 1 \<or> 2 \<le> i"
      by linarith
    then have "(i < 2 \<and> bit w (s + i)) \<longleftrightarrow> i = 0"
      using a by auto
    then show "bit (drop_bit s w AND 3) i \<longleftrightarrow> bit (1 :: u64) i"
      by (simp only: group_bits bit_1_iff)
  qed
qed

lemma bit_two: "bit (2 :: u64) i \<longleftrightarrow> i = 1"
proof -
  have "(2 :: u64) = 2 ^ 1"
    by simp
  then have "bit (2 :: u64) i \<longleftrightarrow> bit (2 ^ 1 :: u64) i"
    by simp
  also have "\<dots> \<longleftrightarrow> i = 1"
    by (simp only: bit_exp_iff) auto
  finally show ?thesis .
qed

lemma group_is_2:
  fixes w :: u64
  shows "drop_bit s w AND 3 = 2 \<longleftrightarrow> \<not> bit w s \<and> bit w (Suc s)"
proof
  assume "drop_bit s w AND 3 = 2"
  then have b: "bit (drop_bit s w AND 3) i \<longleftrightarrow> i = 1" for i
    by (simp only: bit_two)
  from b [of 0] b [of 1] show "\<not> bit w s \<and> bit w (Suc s)"
    by (simp only: group_bits) simp
next
  assume a: "\<not> bit w s \<and> bit w (Suc s)"
  show "drop_bit s w AND 3 = 2"
  proof (rule bit_eqI)
    fix i :: nat
    have "i = 0 \<or> i = 1 \<or> 2 \<le> i"
      by linarith
    then have "(i < 2 \<and> bit w (s + i)) \<longleftrightarrow> i = 1"
      using a by auto
    then show "bit (drop_bit s w AND 3) i \<longleftrightarrow> bit (2 :: u64) i"
      by (simp only: group_bits bit_two)
  qed
qed


lemma mask_at_group:
  assumes "even (unat rp)" and "unat rp < 64 * length src"
  shows "\<exists>g. u64_bitarray_mask_at src rp 3 = Inr g \<and>
           (g = 1 \<longleftrightarrow> bit_at src (unat rp) \<and> \<not> bit_at src (Suc (unat rp))) \<and>
           (g = 2 \<longleftrightarrow> \<not> bit_at src (unat rp) \<and> bit_at src (Suc (unat rp)))"
proof -
  have "unat rp div 64 < length src"
    using assms(2) by (simp add: less_mult_imp_div_less mult.commute)
  then have "u64_bitarray_mask_at src rp 3 =
      Inr (drop_bit (unat rp mod 64) (src ! (unat rp div 64)) AND 3)"
    by (simp add: u64_bitarray_mask_at_def)
  then show ?thesis
    by (simp add: bit_at_def pair_index(1,2) [OF assms(1)] group_is_1 group_is_2)
qed

lemma bit_push_bit_one: "i < 64 \<Longrightarrow> bit (push_bit b (1 :: u64)) i \<longleftrightarrow> i = b"
  by (auto simp: bit_exp_iff)

lemma set_bit_at:
  assumes "unat wp < 64 * length dest"
  shows "\<exists>d. u64_bitarray_set dest wp = Inr d \<and> length d = length dest \<and>
           (\<forall>j < 64 * length dest. bit_at d j \<longleftrightarrow> j = unat wp \<or> bit_at dest j)"
proof -
  define J where "J = unat wp div 64"
  define b where "b = unat wp mod 64"
  define d where "d = dest[J := dest ! J OR push_bit b 1]"
  have J: "J < length dest"
    using assms by (simp add: J_def less_mult_imp_div_less mult.commute)
  then have eq: "u64_bitarray_set dest wp = Inr d"
    by (simp add: u64_bitarray_set_def d_def J_def b_def)
  have len: "length d = length dest"
    by (simp add: d_def)
  have bits: "bit_at d j \<longleftrightarrow> j = unat wp \<or> bit_at dest j" if "j < 64 * length dest" for j
  proof (cases "j div 64 = J")
    case True
    have jw: "j = unat wp \<longleftrightarrow> j mod 64 = b"
      using True by (metis J_def b_def div_mult_mod_eq)
    have dn: "d ! (j div 64) = dest ! J OR push_bit b 1"
      using True J by (simp add: d_def)
    have pb: "bit (push_bit b (1 :: u64)) (j mod 64) \<longleftrightarrow> j mod 64 = b"
      by (rule bit_push_bit_one) simp
    have "bit_at d j \<longleftrightarrow> bit (dest ! J) (j mod 64) \<or> j mod 64 = b"
      by (simp only: bit_at_def dn bit_or_iff pb)
    moreover have "bit_at dest j = bit (dest ! J) (j mod 64)"
      by (simp only: bit_at_def True)
    ultimately show ?thesis
      using jw by auto
  next
    case False
    then have "j \<noteq> unat wp" and "d ! (j div 64) = dest ! (j div 64)"
      by (auto simp: J_def d_def)
    then show ?thesis
      by (simp add: bit_at_def)
  qed
  from eq len bits show ?thesis
    by blast
qed

lemma vndb_spec_full: "length out = m \<Longrightarrow> vndb_spec m bs out rd = (out, rd)"
  by (cases "(m, bs, out, rd)" rule: vndb_spec.cases) simp_all

lemma vndb_spec_step:
  "length out \<noteq> m \<Longrightarrow>
   vndb_spec m (b0 # b1 # bs) out rd =
     vndb_spec m bs
       (if b0 \<and> \<not> b1 then out @ [True] else if \<not> b0 \<and> b1 then out @ [False] else out)
       (rd + 2)"
  by simp

lemma vndb_spec_props:
  "length out \<le> m \<Longrightarrow> even rd \<Longrightarrow> even (length bs) \<Longrightarrow>
   length (fst (vndb_spec m bs out rd)) \<le> m \<and>
   take (length out) (fst (vndb_spec m bs out rd)) = out \<and>
   length out \<le> length (fst (vndb_spec m bs out rd)) \<and>
   even (snd (vndb_spec m bs out rd)) \<and>
   rd \<le> snd (vndb_spec m bs out rd) \<and>
   snd (vndb_spec m bs out rd) \<le> rd + length bs \<and>
   (length (fst (vndb_spec m bs out rd)) = m \<or> snd (vndb_spec m bs out rd) = rd + length bs)"
proof (induction m bs out rd rule: vndb_spec.induct)
  case (1 m b0 b1 bs out rd)
  show ?case
  proof (cases "length out = m")
    case True
    then show ?thesis
      using "1.prems" by simp
  next
    case False
    let ?out1 = "if b0 \<and> \<not> b1 then out @ [True] else if \<not> b0 \<and> b1 then out @ [False] else out"
    have l1: "length ?out1 \<le> m" and l2: "length out \<le> length ?out1"
      and pre: "take (length out) ?out1 = out"
      using False "1.prems"(1) by auto
    have IH: "length (fst (vndb_spec m bs ?out1 (rd + 2))) \<le> m \<and>
      take (length ?out1) (fst (vndb_spec m bs ?out1 (rd + 2))) = ?out1 \<and>
      length ?out1 \<le> length (fst (vndb_spec m bs ?out1 (rd + 2))) \<and>
      even (snd (vndb_spec m bs ?out1 (rd + 2))) \<and>
      rd + 2 \<le> snd (vndb_spec m bs ?out1 (rd + 2)) \<and>
      snd (vndb_spec m bs ?out1 (rd + 2)) \<le> rd + 2 + length bs \<and>
      (length (fst (vndb_spec m bs ?out1 (rd + 2))) = m \<or>
       snd (vndb_spec m bs ?out1 (rd + 2)) = rd + 2 + length bs)"
      using "1.prems" by (intro "1.IH" [OF False] l1) simp_all
    have step: "vndb_spec m (b0 # b1 # bs) out rd = vndb_spec m bs ?out1 (rd + 2)"
      using False by (rule vndb_spec_step)
    have "take (length out) (fst (vndb_spec m bs ?out1 (rd + 2))) =
        take (length out) (take (length ?out1) (fst (vndb_spec m bs ?out1 (rd + 2))))"
      using l2 by (simp add: min_def)
    also have "\<dots> = out"
      using IH pre by simp
    finally have pre': "take (length out) (fst (vndb_spec m bs ?out1 (rd + 2))) = out" .
    from IH l2 pre' show ?thesis
      unfolding step by auto
  qed
qed simp_all


lemma drop_bits_of:
  assumes "p + 2 \<le> N"
  shows "drop p (bits_of src N) = bit_at src p # bit_at src (Suc p) # drop (p + 2) (bits_of src N)"
proof -
  have "p < length (bits_of src N)" and "Suc p < length (bits_of src N)"
    using assms by (simp_all add: bits_of_def)
  then have "drop p (bits_of src N) =
      bits_of src N ! p # bits_of src N ! Suc p # drop (Suc (Suc p)) (bits_of src N)"
    by (simp add: Cons_nth_drop_Suc)
  moreover have "bits_of src N ! p = bit_at src p" and "bits_of src N ! Suc p = bit_at src (Suc p)"
    using assms by (simp_all add: bits_of_def)
  ultimately show ?thesis
    by simp
qed

lemma rng_vndb_switch_spec:
  assumes g1: "g = 1 \<longleftrightarrow> b0 \<and> \<not> b1" and g2: "g = 2 \<longleftrightarrow> \<not> b0 \<and> b1"
    and wp: "unat wp < M" and M: "M \<le> 64 * length dest" and out: "length out = unat wp"
    and M64: "M < 2 ^ 64"
  defines "out1 \<equiv> if b0 \<and> \<not> b1 then out @ [True] else if \<not> b0 \<and> b1 then out @ [False] else out"
  shows "\<exists>dest1 wp1. rng_vndb_switch g dest wp = Inr (dest1, wp1) \<and>
           length dest1 = length dest \<and> unat wp1 = length out1 \<and> length out1 \<le> M \<and>
           (\<forall>j < 64 * length dest. bit_at dest1 j \<longleftrightarrow>
              bit_at dest j \<or> (length out \<le> j \<and> j < length out1 \<and> out1 ! j))"
proof -
  have "(unat wp + 1) mod 2 ^ 64 = unat wp + 1"
    using wp M64 by simp
  then have suc: "unat (wp + 1) = Suc (unat wp)"
    by (simp add: unat_word_ariths)
  consider (one) "b0 \<and> \<not> b1" | (two) "\<not> b0 \<and> b1" | (none) "\<not> (b0 \<and> \<not> b1)" "\<not> (\<not> b0 \<and> b1)"
    by blast
  then show ?thesis
  proof cases
    case one
    then have g: "g = 1" and o: "out1 = out @ [True]"
      using g1 by (simp_all add: out1_def)
    from set_bit_at [of wp dest] wp M obtain d where
      d: "u64_bitarray_set dest wp = Inr d" "length d = length dest"
        "\<forall>j < 64 * length dest. bit_at d j \<longleftrightarrow> j = unat wp \<or> bit_at dest j"
      by auto
    have "(length out \<le> j \<and> j < length out1 \<and> out1 ! j) \<longleftrightarrow> j = unat wp" for j
      using out by (auto simp: o nth_append)
    with d(3) have "\<forall>j < 64 * length dest. bit_at d j \<longleftrightarrow>
        bit_at dest j \<or> (length out \<le> j \<and> j < length out1 \<and> out1 ! j)"
      by auto
    moreover have "rng_vndb_switch g dest wp = Inr (d, wp + 1)"
      by (simp add: rng_vndb_switch_def g d(1))
    moreover have "unat (wp + 1) = length out1" and "length out1 \<le> M"
      using wp out by (simp_all add: suc o)
    ultimately show ?thesis
      using d(2) by blast
  next
    case two
    then have g: "g = 2" "g \<noteq> 1" and o: "out1 = out @ [False]"
      using g1 g2 by (simp_all add: out1_def)
    have "\<not> (length out \<le> j \<and> j < length out1 \<and> out1 ! j)" for j
      by (auto simp: o nth_append)
    then have "\<forall>j < 64 * length dest. bit_at dest j \<longleftrightarrow>
        bit_at dest j \<or> (length out \<le> j \<and> j < length out1 \<and> out1 ! j)"
      by blast
    moreover have "rng_vndb_switch g dest wp = Inr (dest, wp + 1)"
      using g by (simp add: rng_vndb_switch_def)
    moreover have "unat (wp + 1) = length out1" and "length out1 \<le> M"
      using wp out by (simp_all add: suc o)
    ultimately show ?thesis
      by blast
  next
    case none
    then have g: "g \<noteq> 1" "g \<noteq> 2" and o: "out1 = out"
      using g1 g2 by (simp_all add: out1_def)
    have "\<forall>j < 64 * length dest. bit_at dest j \<longleftrightarrow>
        bit_at dest j \<or> (length out \<le> j \<and> j < length out1 \<and> out1 ! j)"
      by (auto simp: o)
    moreover have "rng_vndb_switch g dest wp = Inr (dest, wp)"
      using g by (simp add: rng_vndb_switch_def)
    moreover have "unat wp = length out1" and "length out1 \<le> M"
      using wp out by (simp_all add: o)
    ultimately show ?thesis
      by blast
  qed
qed


lemma rng_vndb_loop_spec:
  assumes n: "even (unat n)" "unat n \<le> 64 * length src"
  shows "even (unat rp) \<Longrightarrow> unat rp \<le> unat n \<Longrightarrow> unat wp < unat m \<Longrightarrow>
    length out = unat wp \<Longrightarrow> unat m \<le> 64 * length dest \<Longrightarrow>
    \<exists>dest'. rng_vndb_loop src n m dest wp rp =
        Some (Inr (dest',
          of_nat (length (fst (vndb_spec (unat m) (drop (unat rp) (bits_of src (unat n))) out (unat rp)))),
          of_nat (snd (vndb_spec (unat m) (drop (unat rp) (bits_of src (unat n))) out (unat rp))))) \<and>
      length dest' = length dest \<and>
      (\<forall>j < 64 * length dest. bit_at dest' j \<longleftrightarrow> bit_at dest j \<or>
         (length out \<le> j \<and>
          j < length (fst (vndb_spec (unat m) (drop (unat rp) (bits_of src (unat n))) out (unat rp))) \<and>
          fst (vndb_spec (unat m) (drop (unat rp) (bits_of src (unat n))) out (unat rp)) ! j))"
proof (induction "unat n - unat rp" arbitrary: rp wp dest out rule: less_induct)
  case less
  define N where "N = unat n"
  define M where "M = unat m"
  define p where "p = unat rp"
  define bits where "bits = bits_of src N"
  have N64: "N < 2 ^ 64" and M64: "M < 2 ^ 64"
    using unsigned_less [of n, where ?'a = nat] unsigned_less [of m, where ?'a = nat]
    by (simp_all add: N_def M_def)
  have lenbits: "length bits = N"
    by (simp add: bits_def bits_of_def)
  note prems = less.prems [folded N_def M_def p_def]
  show ?case
    unfolding N_def [symmetric] M_def [symmetric] p_def [symmetric] bits_def [symmetric]
  proof (cases "rp < n")
    case False
    then have "N \<le> p"
      by (simp add: word_less_nat_alt N_def p_def)
    with prems(2) have pN: "p = N"
      by simp
    have "drop p bits = []"
      by (simp add: pN lenbits)
    then have R: "vndb_spec M (drop p bits) out p = (out, p)"
      by simp
    have "rng_vndb_loop src n m dest wp rp = Some (Inr (dest, wp, rp))"
      using False by (subst rng_vndb_loop.simps) simp
    moreover have "word_of_nat (length out) = wp" and "word_of_nat p = rp"
      using prems(4) by (simp_all add: p_def)
    ultimately show "\<exists>dest'. rng_vndb_loop src n m dest wp rp =
        Some (Inr (dest', of_nat (length (fst (vndb_spec M (drop p bits) out p))),
                   of_nat (snd (vndb_spec M (drop p bits) out p)))) \<and>
      length dest' = length dest \<and>
      (\<forall>j < 64 * length dest. bit_at dest' j \<longleftrightarrow> bit_at dest j \<or>
         (length out \<le> j \<and> j < length (fst (vndb_spec M (drop p bits) out p)) \<and>
          fst (vndb_spec M (drop p bits) out p) ! j))"
      unfolding R by (intro exI [of _ dest]) auto
  next
    case True
    then have pN: "p < N"
      by (simp add: word_less_nat_alt N_def p_def)
    with prems(1) n(1) have p2: "p + 2 \<le> N"
      unfolding N_def [symmetric] by (auto elim!: evenE)
    then have "(p + 2) mod 2 ^ 64 = p + 2"
      using N64 by simp
    then have rp2: "unat (rp + 2) = p + 2"
      by (simp add: unat_word_ariths p_def)
    define b0 where "b0 = bit_at src p"
    define b1 where "b1 = bit_at src (Suc p)"
    define out1 where
      "out1 = (if b0 \<and> \<not> b1 then out @ [True] else if \<not> b0 \<and> b1 then out @ [False] else out)"
    have "p < 64 * length src"
      using pN n(2) by (simp add: N_def)
    from mask_at_group [OF less.prems(1) this [unfolded p_def]]
    obtain g where g: "u64_bitarray_mask_at src rp 3 = Inr g"
      "g = 1 \<longleftrightarrow> b0 \<and> \<not> b1" "g = 2 \<longleftrightarrow> \<not> b0 \<and> b1"
      unfolding b0_def b1_def p_def by blast
    from rng_vndb_switch_spec [OF g(2,3) prems(3) prems(5) less.prems(4) M64]
    obtain dest1 wp1 where sw: "rng_vndb_switch g dest wp = Inr (dest1, wp1)"
      and len1: "length dest1 = length dest" and wp1: "unat wp1 = length out1"
      and out1M: "length out1 \<le> M"
      and bits1: "\<forall>j < 64 * length dest. bit_at dest1 j \<longleftrightarrow>
              bit_at dest j \<or> (length out \<le> j \<and> j < length out1 \<and> out1 ! j)"
      unfolding out1_def by blast
    have "length out \<noteq> M"
      using prems(3,4) by simp
    then have R: "vndb_spec M (drop p bits) out p = vndb_spec M (drop (p + 2) bits) out1 (p + 2)"
      unfolding bits_def drop_bits_of [OF p2] out1_def b0_def b1_def by (rule vndb_spec_step)
    have unf: "rng_vndb_loop src n m dest wp rp =
        (if wp1 = m then Some (Inr (dest1, wp1, rp + 2))
         else rng_vndb_loop src n m dest1 wp1 (rp + 2))"
      using True by (subst rng_vndb_loop.simps) (simp add: g(1) sw)
    have ww: "word_of_nat (length out1) = wp1" and rr: "word_of_nat (p + 2) = rp + 2"
      using wp1 [symmetric] rp2 [symmetric] by simp_all
    show "\<exists>dest'. rng_vndb_loop src n m dest wp rp =
        Some (Inr (dest', of_nat (length (fst (vndb_spec M (drop p bits) out p))),
                   of_nat (snd (vndb_spec M (drop p bits) out p)))) \<and>
      length dest' = length dest \<and>
      (\<forall>j < 64 * length dest. bit_at dest' j \<longleftrightarrow> bit_at dest j \<or>
         (length out \<le> j \<and> j < length (fst (vndb_spec M (drop p bits) out p)) \<and>
          fst (vndb_spec M (drop p bits) out p) ! j))"
    proof (cases "wp1 = m")
      case True
      then have "length out1 = M"
        using wp1 by (simp add: M_def)
      then have R': "vndb_spec M (drop (p + 2) bits) out1 (p + 2) = (out1, p + 2)"
        by (rule vndb_spec_full)
      show ?thesis
        unfolding R R' using True unf len1 bits1 ww rr
        by (intro exI [of _ dest1]) simp
    next
      case False
      then have "unat wp1 \<noteq> M"
        by (auto simp: M_def word_unat_eq_iff)
      with out1M wp1 have lt: "unat wp1 < unat m"
        by (simp add: M_def)
      have dec: "unat n - unat (rp + 2) < unat n - unat rp"
        using pN by (simp add: rp2 N_def [symmetric] p_def [symmetric])
      have ev: "even (unat (rp + 2))"
        using less.prems(1) by (simp add: rp2 p_def)
      have le: "unat (rp + 2) \<le> unat n"
        using p2 by (simp add: rp2 N_def)
      have M1: "unat m \<le> 64 * length dest1"
        using less.prems(5) by (simp add: len1)
      from less.hyps [OF dec ev le lt wp1 [symmetric] M1]
      obtain dest' where
        run: "rng_vndb_loop src n m dest1 wp1 (rp + 2) =
          Some (Inr (dest',
            of_nat (length (fst (vndb_spec M (drop (p + 2) bits) out1 (p + 2)))),
            of_nat (snd (vndb_spec M (drop (p + 2) bits) out1 (p + 2)))))"
        and len': "length dest' = length dest1"
        and bits': "\<forall>j < 64 * length dest1. bit_at dest' j \<longleftrightarrow> bit_at dest1 j \<or>
           (length out1 \<le> j \<and>
            j < length (fst (vndb_spec M (drop (p + 2) bits) out1 (p + 2))) \<and>
            fst (vndb_spec M (drop (p + 2) bits) out1 (p + 2)) ! j)"
        unfolding rp2 N_def [symmetric] M_def [symmetric] bits_def [symmetric] by blast
      define Rout where "Rout = fst (vndb_spec M (drop (p + 2) bits) out1 (p + 2))"
      have "even (p + 2)" and "even (length (drop (p + 2) bits))"
        using less.prems(1) n(1) p2 by (simp_all add: p_def lenbits N_def)
      from vndb_spec_props [OF out1M this]
      have pre: "take (length out1) Rout = out1" and ge: "length out1 \<le> length Rout"
        by (simp_all add: Rout_def)
      have nth1: "Rout ! j = out1 ! j" if "j < length out1" for j
        using that pre by (metis nth_take)
      have lo: "length out \<le> length out1"
        by (simp add: out1_def)
      have comb: "(length out \<le> j \<and> j < length out1 \<and> out1 ! j) \<or>
          (length out1 \<le> j \<and> j < length Rout \<and> Rout ! j) \<longleftrightarrow>
          (length out \<le> j \<and> j < length Rout \<and> Rout ! j)" for j
        using nth1 [of j] ge lo by (cases "j < length out1") auto
      have "\<forall>j < 64 * length dest. bit_at dest' j \<longleftrightarrow> bit_at dest j \<or>
          (length out \<le> j \<and> j < length Rout \<and> Rout ! j)"
        using bits' bits1 comb unfolding len1 Rout_def [symmetric] by blast
      then show ?thesis
        unfolding R Rout_def [symmetric] using False unf run len' len1
        by (intro exI [of _ dest']) (simp add: Rout_def)
    qed
  qed
qed


lemma memset_size:
  fixes m :: u64
  assumes "m \<noteq> 0"
  shows "unat ((m - 1) div 8 + 1) = (unat m - 1) div 8 + 1"
proof -
  have m64: "unat m < 2 ^ 64"
    using unsigned_less [of m, where ?'a = nat] by simp
  have "1 \<le> unat m"
    using assms by (simp add: unat_gt_0 Suc_leI)
  then have "unat (m - 1) = unat m - 1"
    by (simp add: unat_sub word_le_nat_alt)
  then have d: "unat ((m - 1) div 8) = (unat m - 1) div 8"
    by (simp add: unat_div)
  have b: "(unat m - 1) div 8 + 1 < 2 ^ 64"
    using m64 by simp
  have "unat ((m - 1) div 8 + 1) = (unat ((m - 1) div 8) + 1) mod 2 ^ 64"
    by (simp only: unat_word_ariths) simp
  also have "\<dots> = (unat m - 1) div 8 + 1"
    using b by (simp only: d) simp
  finally show ?thesis .
qed

lemma word_even_unat: "(n :: u64) mod 2 = 0 \<longleftrightarrow> even (unat n)"
proof -
  have "unat (n mod 2) = unat n mod 2"
    by (simp add: unat_mod)
  then show ?thesis
    by (metis even_iff_mod_2_eq_zero unat_eq_0)
qed

text \<open>
  C5. For a source of \<open>n\<close> bits, \<open>n\<close> even and at least 2, and \<open>m \<ge> 1\<close>, with both buffers
  large enough for their bit counts, \<open>rng_vndb\<close> returns, and its result is that of the
  pass over consecutive 2-bit groups from bit 0 on: the group with value 1 emits a 1, the
  group with value 2 emits a 0, the groups 0 and 3 emit nothing; the read cursor moves by
  2 for every group and the write cursor by 1 for every emitted bit; the pass stops once
  \<open>m\<close> bits are out or \<open>n\<close> bits are read. \<open>used\<close> is the number of bits read and \<open>filled\<close>
  the number of bits emitted, which may be less than \<open>m\<close>. The destination holds the
  emitted bits from bit 0 on, zeros after them up to the end of the bytes that were
  zero-filled up front (the bytes that hold the first \<open>m\<close> bits), and is unchanged
  beyond.
\<close>

theorem rng_vndb_debiases:
  "n \<noteq> 0 \<and> m \<noteq> 0 \<and> n mod 2 = 0 \<and> unat n \<le> 64 * length src \<and> unat m \<le> 64 * length dest \<longrightarrow>
     (let R = vndb_spec (unat m) (bits_of src (unat n)) [] 0;
          zeroed = 8 * ((unat m - 1) div 8 + 1)
      in \<exists>dest' info. rng_vndb src dest n m = Some (Inr (dest', info)) \<and>
           unat (used info) = snd R \<and> unat (filled info) = length (fst R) \<and>
           length dest' = length dest \<and>
           (\<forall>j < 64 * length dest. bit_at dest' j \<longleftrightarrow>
              (if j < length (fst R) then fst R ! j
               else if j < zeroed then False else bit_at dest j)) \<and>
           length (fst R) \<le> unat m \<and> snd R \<le> unat n \<and> even (snd R) \<and>
           (length (fst R) = unat m \<or> snd R = unat n) \<and>
           unat m \<le> zeroed \<and> zeroed \<le> 64 * length dest)"
proof (intro impI)
  assume a: "n \<noteq> 0 \<and> m \<noteq> 0 \<and> n mod 2 = 0 \<and> unat n \<le> 64 * length src \<and>
    unat m \<le> 64 * length dest"
  define N where "N = unat n"
  define M where "M = unat m"
  define nb where "nb = (M - 1) div 8 + 1"
  define R where "R = vndb_spec M (bits_of src N) [] 0"
  have ev: "even N"
    using a by (simp add: N_def word_even_unat)
  have M1: "1 \<le> M"
    using a by (simp add: M_def unat_gt_0 Suc_leI)
  have Mdest: "M \<le> 64 * length dest" and Nsrc: "N \<le> 64 * length src"
    using a by (simp_all add: M_def N_def)
  have N64: "N < 2 ^ 64"
    using unsigned_less [of n, where ?'a = nat] by (simp add: N_def)
  have M64: "M < 2 ^ 64"
    using unsigned_less [of m, where ?'a = nat] by (simp add: M_def)
  have nbL: "nb \<le> 8 * length dest" and Mnb: "M \<le> 8 * nb"
    using M1 Mdest by (simp_all add: nb_def)
  have size: "unat ((m - 1) div 8 + 1) = nb"
    using a by (simp add: memset_size nb_def M_def)
  from memset_zero_bits [OF nbL] obtain d0 where
    ms: "memset_zero dest nb = Inr d0" and len0: "length d0 = length dest"
    and bits0: "\<forall>i < 64 * length dest. bit_at d0 i \<longleftrightarrow> \<not> i < 8 * nb \<and> bit_at dest i"
    by blast
  have "length (fst R) \<le> M \<and> even (snd R) \<and> snd R \<le> N \<and> (length (fst R) = M \<or> snd R = N)"
    using vndb_spec_props [of "[]" M 0 "bits_of src N"] ev
    by (simp add: R_def bits_of_def)
  then have p: "length (fst R) \<le> M" "even (snd R)" "snd R \<le> N" "length (fst R) = M \<or> snd R = N"
    by simp_all
  have "even (unat (0 :: u64))" and "unat (0 :: u64) \<le> unat n" and "unat (0 :: u64) < unat m"
    and "length ([] :: bool list) = unat (0 :: u64)" and "unat m \<le> 64 * length d0"
    using M1 Mdest by (simp_all add: M_def len0)
  from rng_vndb_loop_spec [OF ev [unfolded N_def] Nsrc [unfolded N_def] this]
  obtain dest' where
    run: "rng_vndb_loop src n m d0 0 0 =
        Some (Inr (dest', of_nat (length (fst R)), of_nat (snd R)))"
    and len': "length dest' = length d0"
    and bits': "\<forall>j < 64 * length d0. bit_at dest' j \<longleftrightarrow> bit_at d0 j \<or>
         (length ([] :: bool list) \<le> j \<and> j < length (fst R) \<and> fst R ! j)"
    unfolding R_def N_def M_def by auto
  define info where "info = \<lparr>used = word_of_nat (snd R) :: u64, filled = word_of_nat (length (fst R))\<rparr>"
  have res: "rng_vndb src dest n m = Some (Inr (dest', info))"
    using a by (simp add: rng_vndb_def size ms run info_def)
  have "snd R mod 2 ^ 64 = snd R" and "length (fst R) mod 2 ^ 64 = length (fst R)"
    using p(1,3) N64 M64 by simp_all
  then have u: "unat (used info) = snd R" and f: "unat (filled info) = length (fst R)"
    by (simp_all add: info_def unat_of_nat)
  have bits: "\<forall>j < 64 * length dest. bit_at dest' j \<longleftrightarrow>
      (if j < length (fst R) then fst R ! j else if j < 8 * nb then False else bit_at dest j)"
  proof (intro allI impI)
    fix j assume j: "j < 64 * length dest"
    then have 1: "bit_at dest' j \<longleftrightarrow> bit_at d0 j \<or> (j < length (fst R) \<and> fst R ! j)"
      using bits' by (simp add: len0)
    have 2: "bit_at d0 j \<longleftrightarrow> \<not> j < 8 * nb \<and> bit_at dest j"
      using j bits0 by simp
    show "bit_at dest' j \<longleftrightarrow>
      (if j < length (fst R) then fst R ! j else if j < 8 * nb then False else bit_at dest j)"
      unfolding 1 2 using p(1) Mnb by auto
  qed
  have z: "8 * nb \<le> 64 * length dest"
    using nbL by simp
  show "let R = vndb_spec (unat m) (bits_of src (unat n)) [] 0;
          zeroed = 8 * ((unat m - 1) div 8 + 1)
      in \<exists>dest' info. rng_vndb src dest n m = Some (Inr (dest', info)) \<and>
           unat (used info) = snd R \<and> unat (filled info) = length (fst R) \<and>
           length dest' = length dest \<and>
           (\<forall>j < 64 * length dest. bit_at dest' j \<longleftrightarrow>
              (if j < length (fst R) then fst R ! j
               else if j < zeroed then False else bit_at dest j)) \<and>
           length (fst R) \<le> unat m \<and> snd R \<le> unat n \<and> even (snd R) \<and>
           (length (fst R) = unat m \<or> snd R = unat n) \<and>
           unat m \<le> zeroed \<and> zeroed \<le> 64 * length dest"
    unfolding Let_def N_def [symmetric] M_def [symmetric] nb_def [symmetric] R_def [symmetric]
    using res u f len' len0 bits p Mnb z by (intro exI [of _ dest'] exI [of _ info]) simp
qed



theorem rng_vndb_debiases_witness:
  "rng_vndb [0x9] [0xFFFFFFFFFFFFFFFF, 0xFFFFFFFFFFFFFFFF] 4 9 =
     Some (Inr ([0xFFFFFFFFFFFF0001, 0xFFFFFFFFFFFFFFFF], \<lparr>used = 4, filled = 2\<rparr>))
   \<and> vndb_spec 9 (bits_of [0x9] 4) [] 0 = ([True, False], 4)
   \<and> snd (vndb_spec (unat (9 :: u64)) (bits_of [0x9] (unat (4 :: u64))) [] 0) = unat (4 :: u64)
   \<and> length (fst (vndb_spec (unat (9 :: u64)) (bits_of [0x9] (unat (4 :: u64))) [] 0)) = unat (2 :: u64)"
proof -
  have ev: "rng_vndb [0x9] [0xFFFFFFFFFFFFFFFF, 0xFFFFFFFFFFFFFFFF] 4 9 =
     Some (Inr ([0xFFFFFFFFFFFF0001, 0xFFFFFFFFFFFFFFFF], \<lparr>used = 4, filled = 2\<rparr>))"
    by code_simp
  have sp: "vndb_spec 9 (bits_of [0x9] 4) [] 0 = ([True, False], 4)"
    by code_simp
  have h: "(4 :: u64) \<noteq> 0 \<and> (9 :: u64) \<noteq> 0 \<and> (4 :: u64) mod 2 = 0 \<and>
      unat (4 :: u64) \<le> 64 * length [0x9 :: u64] \<and>
      unat (9 :: u64) \<le> 64 * length [0xFFFFFFFFFFFFFFFF :: u64, 0xFFFFFFFFFFFFFFFF]"
    by simp
  from rng_vndb_debiases [of 4 9 "[0x9]" "[0xFFFFFFFFFFFFFFFF, 0xFFFFFFFFFFFFFFFF]"] h
  obtain dest' info where
    r: "rng_vndb [0x9] [0xFFFFFFFFFFFFFFFF, 0xFFFFFFFFFFFFFFFF] 4 9 = Some (Inr (dest', info))"
    and u: "unat (used info) = snd (vndb_spec (unat (9 :: u64)) (bits_of [0x9] (unat (4 :: u64))) [] 0)"
    and f: "unat (filled info) =
      length (fst (vndb_spec (unat (9 :: u64)) (bits_of [0x9] (unat (4 :: u64))) [] 0))"
    unfolding Let_def by blast
  from r ev have "info = \<lparr>used = 4, filled = 2\<rparr>"
    by simp
  with u f have "snd (vndb_spec (unat (9 :: u64)) (bits_of [0x9] (unat (4 :: u64))) [] 0) = unat (4 :: u64)"
    and "length (fst (vndb_spec (unat (9 :: u64)) (bits_of [0x9] (unat (4 :: u64))) [] 0)) = unat (2 :: u64)"
    by (simp_all only: stream_t.simps)
  with ev sp show ?thesis
    by (simp only: simp_thms)
qed

section \<open>The range of the autocorrelation\<close>

lemma cycc_quotient_bounds:
  fixes N X1 X2 :: nat
  assumes "X1 \<le> X2" and "X2 < N" and "0 < X2" and "2 * X2 \<le> N + X1"
  shows "real N * real X2 - real X2 * real X2 > 0"
    and "- 1 \<le> (real N * real X1 - real X2 * real X2) / (real N * real X2 - real X2 * real X2)"
    and "(real N * real X1 - real X2 * real X2) / (real N * real X2 - real X2 * real X2) \<le> 1"
proof -
  define a b c where "a = real X1" and "b = real X2" and "c = real N"
  have h: "0 \<le> a" "a \<le> b" "b < c" "0 < b" "2 * b \<le> c + a"
    using assms unfolding a_def b_def c_def by (simp_all flip: of_nat_add of_nat_mult)
  have D: "c * b - b * b = b * (c - b)"
    by (simp add: algebra_simps)
  have "0 < b * (c - b)"
    using h by simp
  then show pos: "real N * real X2 - real X2 * real X2 > 0"
    unfolding a_def b_def c_def D [unfolded b_def c_def] .
  have "c * a \<le> c * b"
    using h by (intro mult_left_mono) simp_all
  then have up: "c * a - b * b \<le> c * b - b * b"
    by simp
  have low: "- (c * b - b * b) \<le> c * a - b * b"
  proof (cases "2 * b \<le> c")
    case True
    then have "2 * b * b \<le> c * b"
      using h by (intro mult_right_mono) simp_all
    moreover have "0 \<le> c * a"
      using h by simp
    ultimately show ?thesis
      by simp
  next
    case False
    then have "0 \<le> (2 * b - c) * (c - b)"
      using h by (intro mult_nonneg_nonneg) simp_all
    moreover have "(2 * b - c) * (c - b) = c * (3 * b - c) - 2 * b * b"
      by (simp add: algebra_simps)
    moreover have "c * (2 * b - c) \<le> c * a"
      using h by (intro mult_left_mono) simp_all
    then have "c * (3 * b - c) \<le> c * a + c * b"
      by (simp add: algebra_simps)
    ultimately show ?thesis
      by simp
  qed
  from pos have pos': "0 < c * b - b * b"
    by (simp add: b_def c_def)
  show "- 1 \<le> (real N * real X1 - real X2 * real X2) / (real N * real X2 - real X2 * real X2)"
    using low pos' unfolding a_def b_def c_def by (simp add: pos_le_divide_eq)
  show "(real N * real X1 - real X2 * real X2) / (real N * real X2 - real X2 * real X2) \<le> 1"
    using up pos' unfolding a_def b_def c_def by (simp add: pos_divide_le_eq)
qed

lemma shift_back:
  fixes N K y :: nat
  assumes "K < N" and "y < N"
  shows "((y + (N - K)) mod N + K) mod N = y"
proof -
  have "((y + (N - K)) mod N + K) mod N = (y + (N - K) + K) mod N"
    by (simp add: mod_add_left_eq)
  also have "\<dots> = (y + N) mod N"
    using assms(1) by simp
  also have "\<dots> = y"
    using assms(2) by simp
  finally show ?thesis .
qed

lemma shifted_overlap:
  fixes N K :: nat and b :: "nat \<Rightarrow> bool"
  assumes "K < N"
  defines "A \<equiv> {j. j < N \<and> b j}"
  defines "C \<equiv> {j. j < N \<and> b j \<and> b ((j + K) mod N)}"
  shows "2 * card A \<le> N + card C" and "card C \<le> card A" and "card A \<le> N"
proof -
  define B where "B = {j. j < N \<and> b ((j + K) mod N)}"
  define g where "g = (\<lambda>y. (y + (N - K)) mod N)"
  have finA: "finite A" and finB: "finite B"
    by (simp_all add: A_def B_def)
  have sA: "A \<subseteq> {..<N}" and sAB: "A \<union> B \<subseteq> {..<N}"
    by (auto simp: A_def B_def)
  have "card A \<le> card {..<N}"
    using sA by (intro card_mono) simp_all
  then have cA: "card A \<le> N"
    by simp
  have "card (A \<union> B) \<le> card {..<N}"
    using sAB by (intro card_mono) simp_all
  then have cAB: "card (A \<union> B) \<le> N"
    by simp
  show "card A \<le> N"
    by (rule cA)
  have C: "C = A \<inter> B"
    by (auto simp: A_def B_def C_def)
  show "card C \<le> card A"
    unfolding C using finA by (intro card_mono) simp_all
  have N: "0 < N"
    using assms(1) by simp
  have inj: "inj_on g A"
  proof (rule inj_on_inverseI)
    fix y assume "y \<in> A"
    then show "(\<lambda>z. (z + K) mod N) (g y) = y"
      using shift_back [OF assms(1)] by (simp add: g_def A_def)
  qed
  have "g ` A \<subseteq> B"
    using shift_back [OF assms(1)] N by (auto simp: g_def A_def B_def)
  then have "card (g ` A) \<le> card B"
    using finB by (intro card_mono)
  then have AB': "card A \<le> card B"
    by (simp add: card_image [OF inj])
  have "card A + card B = card (A \<union> B) + card (A \<inter> B)"
    using finA finB by (rule card_Un_Int)
  with AB' cAB show "2 * card A \<le> N + card C"
    unfolding C by simp
qed


lemma bitarray_test_in_bounds:
  "unat i < 64 * length src \<Longrightarrow> u64_bitarray_test src i = Inr (bit_at src (unat i))"
  by (simp add: u64_bitarray_test_def bit_at_def less_mult_imp_div_less mult.commute)

lemma card_from:
  fixes P :: "nat \<Rightarrow> bool"
  assumes "I < N"
  shows "card {j. I \<le> j \<and> j < N \<and> P j} =
           (if P I then Suc (card {j. Suc I \<le> j \<and> j < N \<and> P j})
            else card {j. Suc I \<le> j \<and> j < N \<and> P j})"
proof -
  let ?S = "{j. Suc I \<le> j \<and> j < N \<and> P j}"
  have fin: "finite ?S" and notin: "I \<notin> ?S"
    by simp_all
  show ?thesis
  proof (cases "P I")
    case True
    then have "{j. I \<le> j \<and> j < N \<and> P j} = insert I ?S"
      using assms by (auto simp: Suc_le_eq le_less)
    then show ?thesis
      using True fin notin by simp
  next
    case False
    then have "{j. I \<le> j \<and> j < N \<and> P j} = ?S"
      by (auto simp: Suc_le_eq le_less)
    then show ?thesis
      using False by simp
  qed
qed

lemma rng_cycc_loop_counts:
  assumes src: "unat n \<le> 64 * length src" and k: "k < n" and n63: "unat n \<le> 2 ^ 63"
  shows "unat i \<le> unat n \<Longrightarrow>
    rng_cycc_loop src n k i x1 x2 =
      Inr (x1 + of_nat (card {j. unat i \<le> j \<and> j < unat n \<and>
                               (bit_at src j \<and> bit_at src ((j + unat k) mod unat n))}),
           x2 + of_nat (card {j. unat i \<le> j \<and> j < unat n \<and> bit_at src j}))"
proof (induction "unat n - unat i" arbitrary: i x1 x2)
  case 0
  then have "unat i = unat n"
    by simp
  then have "\<not> i < n"
    by (simp add: word_less_nat_alt)
  moreover have "{j. unat i \<le> j \<and> j < unat n \<and>
      (bit_at src j \<and> bit_at src ((j + unat k) mod unat n))} = {}"
    and "{j. unat i \<le> j \<and> j < unat n \<and> bit_at src j} = {}"
    using \<open>unat i = unat n\<close> by auto
  ultimately show ?case
    by (simp only: rng_cycc_loop.simps [of src n k i] card.empty) simp
next
  case (Suc d)
  define N where "N = unat n"
  define K where "K = unat k"
  define I where "I = unat i"
  have IN: "I < N"
    using Suc.hyps(2) by (simp add: N_def I_def)
  then have lt: "i < n"
    by (simp add: word_less_nat_alt N_def I_def)
  have KN: "K < N"
    using k by (simp add: word_less_nat_alt N_def K_def)
  have N63: "N \<le> 2 ^ 63"
    using n63 by (simp add: N_def)
  have "(I + 1) mod 2 ^ 64 = I + 1"
    using IN N63 by simp
  then have i1: "unat (i + 1) = Suc I"
    by (simp add: unat_word_ariths I_def)
  have "(I + K) mod 2 ^ 64 = I + K"
    using IN KN N63 by simp
  then have "unat (i + k) = I + K"
    by (simp add: unat_word_ariths I_def K_def)
  then have ik: "unat ((i + k) mod n) = (I + K) mod N"
    by (simp add: unat_mod N_def)
  have t1: "u64_bitarray_test src i = Inr (bit_at src I)"
    unfolding I_def using IN src by (intro bitarray_test_in_bounds) (simp add: I_def N_def)
  have "(I + K) mod N < N"
    using IN by simp
  then have t2: "u64_bitarray_test src ((i + k) mod n) = Inr (bit_at src ((I + K) mod N))"
    unfolding ik [symmetric] using src by (intro bitarray_test_in_bounds) (simp add: N_def)
  have d: "d = unat n - unat (i + 1)" and le: "unat (i + 1) \<le> unat n"
    using Suc.hyps(2) IN by (simp_all add: i1 I_def N_def)
  note IH = Suc.hyps(1) [OF d le, unfolded i1, folded N_def K_def]
  have c1: "card {j. I \<le> j \<and> j < N \<and> (bit_at src j \<and> bit_at src ((j + K) mod N))} =
      (if bit_at src I \<and> bit_at src ((I + K) mod N)
       then Suc (card {j. Suc I \<le> j \<and> j < N \<and> (bit_at src j \<and> bit_at src ((j + K) mod N))})
       else card {j. Suc I \<le> j \<and> j < N \<and> (bit_at src j \<and> bit_at src ((j + K) mod N))})"
    using IN by (rule card_from)
  have c2: "card {j. I \<le> j \<and> j < N \<and> bit_at src j} =
      (if bit_at src I then Suc (card {j. Suc I \<le> j \<and> j < N \<and> bit_at src j})
       else card {j. Suc I \<le> j \<and> j < N \<and> bit_at src j})"
    using IN by (rule card_from)
  show ?case
    unfolding N_def [symmetric] K_def [symmetric] I_def [symmetric] c1 c2
    using lt by (simp add: rng_cycc_loop.simps [of src n k i] t1 t2 IH)
qed


text \<open>
  With the arithmetic taken exactly and \<open>n\<close> at most \<open>2 ^ 63\<close> (so that \<open>i + k\<close> does not
  wrap around), \<open>rng_cycc\<close> fails an assertion exactly on the streams whose first \<open>n\<close>
  bits are all equal, and on every other stream it returns the quotient, which lies
  between \<open>-1\<close> and \<open>1\<close>.
\<close>

lemma rng_cycc_exact:
  assumes n: "n \<noteq> 0" and k: "k < n" and src: "unat n \<le> 64 * length src"
    and n63: "unat n \<le> 2 ^ 63"
  defines "X2 \<equiv> card {j. j < unat n \<and> bit_at src j}"
  defines "X1 \<equiv> card {j. j < unat n \<and> bit_at src j \<and> bit_at src ((j + unat k) mod unat n)}"
  defines "q \<equiv> (real (unat n) * real X1 - real X2 * real X2) /
                 (real (unat n) * real X2 - real X2 * real X2)"
  shows "rng_cycc src n k = (if X2 = 0 \<or> X2 = unat n then Inl Assertion_failed else Inr q)"
    and "X2 \<noteq> 0 \<Longrightarrow> X2 \<noteq> unat n \<Longrightarrow> - 1 \<le> q \<and> q \<le> 1"
proof -
  define N where "N = unat n"
  define K where "K = unat k"
  have KN: "K < N"
    using k by (simp add: word_less_nat_alt N_def K_def)
  have N64: "N < 2 ^ 64"
    using unsigned_less [of n, where ?'a = nat] by (simp add: N_def)
  note ov = shifted_overlap [OF KN, of "bit_at src", folded X2_def [unfolded N_def [symmetric]]
      X1_def [unfolded N_def [symmetric] K_def [symmetric]]]
  have x2N: "X2 \<le> N" and x12: "X1 \<le> X2" and dbl: "2 * X2 \<le> N + X1"
    using ov by simp_all
  have "X1 mod 2 ^ 64 = X1" and "X2 mod 2 ^ 64 = X2"
    using x2N x12 N64 by simp_all
  then have u: "unat (word_of_nat X1 :: u64) = X1" "unat (word_of_nat X2 :: u64) = X2"
    by (simp_all add: unat_of_nat)
  have "unat (0 :: u64) \<le> unat n"
    by simp
  from rng_cycc_loop_counts [OF src k n63 this, of 0 0]
  have loop: "rng_cycc_loop src n k 0 0 0 = Inr (word_of_nat X1, word_of_nat X2)"
    by (simp add: X1_def X2_def)
  have den: "real N * real X2 - real X2 * real X2 = real X2 * (real N - real X2)"
    by (simp add: algebra_simps)
  have zero: "real N * real X2 - real X2 * real X2 = 0 \<longleftrightarrow> X2 = 0 \<or> X2 = N"
    unfolding den by auto
  have bounds: "- 1 \<le> q \<and> q \<le> 1" if "X2 \<noteq> 0" and "X2 \<noteq> N"
  proof -
    from that x2N have "0 < X2" and "X2 < N"
      by simp_all
    from cycc_quotient_bounds(2,3) [OF x12 this(2) this(1) dbl] show ?thesis
      by (simp add: q_def N_def)
  qed
  then show "X2 \<noteq> 0 \<Longrightarrow> X2 \<noteq> unat n \<Longrightarrow> - 1 \<le> q \<and> q \<le> 1"
    by (simp add: N_def)
  have unf: "rng_cycc src n k =
      (if real N * real X2 - real X2 * real X2 = 0 then Inl Assertion_failed
       else if \<not> - 1 \<le> q then Inl Assertion_failed
       else if \<not> q \<le> 1 then Inl Assertion_failed
       else Inr q)"
    unfolding rng_cycc_def Let_def loop q_def N_def
    by (simp only: n k u if_False if_True not_True_eq_False sum.case prod.case)
  show "rng_cycc src n k = (if X2 = 0 \<or> X2 = unat n then Inl Assertion_failed else Inr q)"
  proof (cases "X2 = 0 \<or> X2 = N")
    case True
    then have "real N * real X2 - real X2 * real X2 = 0"
      by (simp only: zero)
    with True show ?thesis
      unfolding unf by (simp add: N_def)
  next
    case False
    then have nz: "real N * real X2 - real X2 * real X2 \<noteq> 0"
      by (simp only: zero) simp
    from False bounds have "- 1 \<le> q" and "q \<le> 1"
      by simp_all
    with False nz show ?thesis
      unfolding unf by (simp add: N_def)
  qed
qed

text \<open>
  C6. The claim is that \<open>rng_cycc\<close> returns a value in \<open>[-1, 1]\<close>, and that its two
  assertions on the quotient hold, for every stream of length at least 1. On a stream
  of zeros only, or of ones only, \<open>x2\<close> is 0 or \<open>n\<close>, so the numerator and the denominator
  are both 0 and the quotient is not a number: the assertion on the lower bound fails.
  Every stream of length 1 is such a stream. On the alternating stream of the unit test
  the function returns \<open>-1\<close> at lag 1 and \<open>1\<close> at lag 2.
\<close>

theorem rng_cycc_constant_stream:
  "rng_cycc [0] 1 0 = Inl Assertion_failed
   \<and> rng_cycc [1] 1 0 = Inl Assertion_failed
   \<and> rng_cycc [0] 8 3 = Inl Assertion_failed
   \<and> rng_cycc [0xFF] 8 3 = Inl Assertion_failed
   \<and> rng_cycc [0xAA] 8 1 = Inr (- 1)
   \<and> rng_cycc [0xAA] 8 2 = Inr 1"
  by code_simp

end
